theory Spec2Isabelle
  imports Complex_Main "HOL-Library.Sublist"
begin

section \<open>LTspice optimizer: a shallow embedding of \<open>LTspice_opt.py\<close>\<close>

text \<open>
  Conventions of the embedding.
  \<^item> Python floats are modelled by exact real numbers: rounding, overflow, \<open>inf\<close> and
    \<open>nan\<close> of IEEE arithmetic are outside the model, except that \<open>round63\<close> keeps its
    explicit \<open>nan\<close> result for inputs without a finite real logarithm.
  \<^item> Strings are lists of 8-bit characters read as Latin-1 code points, so the micro sign
    \<open>chr(181)\<close> is the single character \<open>CHR 0xB5\<close>.
  \<^item> Every raise and every \<open>sys.exit()\<close> is a value \<open>Inl e\<close>; a loop that may run for
    ever is a partial function whose value \<open>None\<close> means that the call does not return.
  \<^item> \<open>print\<close> and \<open>time.sleep\<close> have no effect on any value and are left out.
\<close>

datatype error =
    IndexError
  | ValueError
  | UnboundLocalError
  | TraceNotFound
  | Exit_InstanceCount
  | Exit_SimFailed
  | Exit_LengthMismatch

subsection \<open>Python string primitives\<close>

text \<open>
  \<open>str.replace(old, new)\<close>: every non-overlapping occurrence, scanning from the left.
  The source only calls it with a non-empty \<open>old\<close>.
\<close>

fun py_replace :: "string \<Rightarrow> string \<Rightarrow> string \<Rightarrow> string" where
  "py_replace old new [] = []"
| "py_replace old new (c # cs) =
     (if old \<noteq> [] \<and> prefix old (c # cs)
      then new @ py_replace old new (drop (length old - 1) cs)
      else c # py_replace old new cs)"

text \<open>\<open>str.lower()\<close> on Latin-1: \<open>A\<close>-\<open>Z\<close> and the accented capitals move up by 32.\<close>

definition lower_char :: "char \<Rightarrow> char" where
  "lower_char c =
     (let n = (of_char c :: nat)
      in if (65 \<le> n \<and> n \<le> 90) \<or> (192 \<le> n \<and> n \<le> 222 \<and> n \<noteq> 215)
         then char_of (n + 32) else c)"

definition py_lower :: "string \<Rightarrow> string" where
  "py_lower s = map lower_char s"

definition is_digit :: "char \<Rightarrow> bool" where
  "is_digit c = (let n = (of_char c :: nat) in 48 \<le> n \<and> n \<le> 57)"

definition digit_val :: "char \<Rightarrow> nat" where
  "digit_val c = of_char c - 48"

text \<open>
  \<open>str.isnumeric()\<close>: non-empty and every character numeric. In Latin-1 the numeric
  characters are the ten digits, the superscripts 1, 2, 3 and the three vulgar fractions.
\<close>

definition numeric_char :: "char \<Rightarrow> bool" where
  "numeric_char c =
     (let n = (of_char c :: nat)
      in (48 \<le> n \<and> n \<le> 57) \<or> n = 178 \<or> n = 179 \<or> n = 185 \<or> (188 \<le> n \<and> n \<le> 190))"

definition py_isnumeric :: "string \<Rightarrow> bool" where
  "py_isnumeric s = (s \<noteq> [] \<and> list_all numeric_char s)"

text \<open>
  \<open>float(s)\<close> on a token without white space (tokens come from \<open>str.split()\<close>), following
  the grammar of the language reference:
  \<^verbatim>\<open>
  digitpart   ::= digit (["_"] digit)*
  number      ::= [digitpart] "." digitpart | digitpart ["."]
  exponent    ::= ("e" | "E") [sign] digitpart
  floatvalue  ::= [sign] number [exponent]
  \<close>
  The value is the exact decimal value; anything else raises \<open>ValueError\<close>. The spellings
  \<open>inf\<close>, \<open>infinity\<close> and \<open>nan\<close> are not modelled.
\<close>

fun digits_tail :: "string \<Rightarrow> nat list \<times> string" where
  "digits_tail [] = ([], [])"
| "digits_tail [c] = (if is_digit c then ([digit_val c], []) else ([], [c]))"
| "digits_tail (c # d # cs) =
     (if is_digit c then (case digits_tail (d # cs) of (ds, r) \<Rightarrow> (digit_val c # ds, r))
      else if c = CHR ''_'' \<and> is_digit d
           then (case digits_tail cs of (ds, r) \<Rightarrow> (digit_val d # ds, r))
      else ([], c # d # cs))"

definition digitpart :: "string \<Rightarrow> (nat list \<times> string) option" where
  "digitpart s =
     (case s of
        [] \<Rightarrow> None
      | c # cs \<Rightarrow> if is_digit c
                 then (case digits_tail cs of (ds, r) \<Rightarrow> Some (digit_val c # ds, r))
                 else None)"

definition nat_of_digits :: "nat list \<Rightarrow> nat" where
  "nat_of_digits ds = foldl (\<lambda>a d. 10 * a + d) 0 ds"

definition parse_number :: "string \<Rightarrow> (nat list \<times> nat list \<times> string) option" where
  "parse_number s =
     (case digitpart s of
        Some (ip, r) \<Rightarrow>
          (case r of
             [] \<Rightarrow> Some (ip, [], r)
           | c # r' \<Rightarrow>
               if c = CHR ''.''
               then (case digitpart r' of
                       Some (fp, r'') \<Rightarrow> Some (ip, fp, r'')
                     | None \<Rightarrow> Some (ip, [], r'))
               else Some (ip, [], r))
      | None \<Rightarrow>
          (case s of
             [] \<Rightarrow> None
           | c # r' \<Rightarrow>
               if c = CHR ''.''
               then (case digitpart r' of
                       Some (fp, r'') \<Rightarrow> Some ([], fp, r'')
                     | None \<Rightarrow> None)
               else None))"

definition split_sign :: "string \<Rightarrow> bool \<times> string" where
  "split_sign s =
     (case s of
        [] \<Rightarrow> (False, s)
      | c # r \<Rightarrow> if c = CHR ''-'' then (True, r)
                else if c = CHR ''+'' then (False, r)
                else (False, s))"

definition parse_exponent :: "string \<Rightarrow> int option" where
  "parse_exponent s =
     (case s of
        [] \<Rightarrow> Some 0
      | c # r \<Rightarrow>
          if c = CHR ''e'' \<or> c = CHR ''E''
          then (case split_sign r of
                  (neg, r') \<Rightarrow>
                    (case digitpart r' of
                       Some (ds, r'') \<Rightarrow>
                         if r'' = []
                         then Some (if neg then - int (nat_of_digits ds)
                                    else int (nat_of_digits ds))
                         else None
                     | None \<Rightarrow> None))
          else None)"

definition py_float :: "string \<Rightarrow> error + real" where
  "py_float s =
     (case split_sign s of
        (neg, body) \<Rightarrow>
          (case parse_number body of
             None \<Rightarrow> Inl ValueError
           | Some (ip, fp, r) \<Rightarrow>
               (case parse_exponent r of
                  None \<Rightarrow> Inl ValueError
                | Some ex \<Rightarrow>
                    Inr ((if neg then - 1 else 1)
                         * real (nat_of_digits (ip @ fp))
                         * 10 powi (ex - int (length fp))))))"

subsection \<open>Value codec: netlist token to number (\<open>main\<close>, lines 445-468)\<close>

definition subst_suffixes :: "string \<Rightarrow> string" where
  "subst_suffixes s0 =
     (let s = py_replace ''M'' ''e6'' s0;
          s = py_replace ''G'' ''e9'' s;
          s = py_lower s;
          s = py_replace ''k'' ''e3'' s;
          s = py_replace ''pf'' ''e-12'' s;
          s = py_replace ''ph'' ''e-12'' s;
          s = py_replace ''p'' ''e-12'' s;
          s = py_replace ''nf'' ''e-9'' s;
          s = py_replace ''nh'' ''e-9'' s;
          s = py_replace ''n'' ''e-9'' s;
          s = py_replace ''uf'' ''e-6'' s;
          s = py_replace ''uh'' ''e-6'' s;
          s = py_replace ''u'' ''e-6'' s;
          s = py_replace ''mf'' ''e-3'' s;
          s = py_replace ''mh'' ''e-3'' s;
          s = py_replace ''m'' ''e-3'' s
      in s)"

definition parse_value :: "string \<Rightarrow> error + real" where
  "parse_value tok =
     (let newStr = py_replace [CHR 0xB5] ''u'' tok;
          newStr = (if \<not> py_isnumeric newStr then subst_suffixes newStr else newStr)
      in py_float newStr)"

subsection \<open>Value codec: number to netlist token (format specification \<open>.12e\<close>)\<close>

text \<open>The character of a decimal digit \<open>d < 10\<close>; \<open>dec_digits\<close> asks for no other.\<close>

definition digit_char :: "nat \<Rightarrow> char" where
  "digit_char d = ''0123456789'' ! d"

fun dec_digits :: "nat \<Rightarrow> string" where
  "dec_digits n =
     (if n < 10 then [digit_char n] else dec_digits (n div 10) @ [digit_char (n mod 10)])"

declare dec_digits.simps [simp del]

definition round_half_even :: "real \<Rightarrow> int" where
  "round_half_even r =
     (let f = \<lfloor>r\<rfloor>; d = r - of_int f
      in if d < 1 / 2 then f
         else if 1 / 2 < d then f + 1
         else if even f then f else f + 1)"

definition pad2 :: "string \<Rightarrow> string" where
  "pad2 s = (if length s < 2 then ''0'' @ s else s)"

text \<open>
  \<open>f'{v:.12e}'\<close> for a finite \<open>v\<close>: one digit, a point, twelve digits (the value rounded
  half-to-even at that place), the letter \<open>e\<close>, the sign of the exponent and at least two
  exponent digits.
\<close>

definition fmt_e12 :: "real \<Rightarrow> string" where
  "fmt_e12 v =
     (if v = 0 then ''0.000000000000e+00''
      else
        let a = \<bar>v\<bar>;
            e0 = \<lfloor>log 10 a\<rfloor>;
            m0 = round_half_even (a / 10 powi (e0 - 12));
            m = (if m0 = 10 ^ 13 then 10 ^ 12 else m0);
            e = (if m0 = 10 ^ 13 then e0 + 1 else e0);
            ds = dec_digits (nat m)
        in (if v < 0 then ''-'' else [])
           @ [hd ds] @ ''.'' @ tl ds
           @ ''e'' @ (if e < 0 then ''-'' else ''+'') @ pad2 (dec_digits (nat \<bar>e\<bar>)))"

subsection \<open>Netlist model\<close>

type_synonym line = "string list"
type_synonym netlist = "line list"

text \<open>
  \<open>netlist[i][3] = tok\<close>. Each line is a list of its own (built by \<open>split()\<close> in \<open>main\<close>),
  so no two lines share storage and the in-place update is an update of a value.
\<close>

definition set_value :: "netlist \<Rightarrow> nat \<Rightarrow> string \<Rightarrow> error + netlist" where
  "set_value nl i tok =
     (if i < length nl
      then (if 3 < length (nl ! i) then Inr (nl[i := (nl ! i)[3 := tok]]) else Inl IndexError)
      else Inl IndexError)"

text \<open>The loop \<open>for k in range(numOptd)\<close> of \<open>optLTspice\<close> (lines 87-89).\<close>

fun update_loop ::
  "nat list \<Rightarrow> real list \<Rightarrow> real list \<Rightarrow> nat list \<Rightarrow> netlist \<Rightarrow> error + netlist" where
  "update_loop optLine nomPars optPars [] nl = Inr nl"
| "update_loop optLine nomPars optPars (k # ks) nl =
     (if k < length nomPars \<and> k < length optPars \<and> k < length optLine
      then (case set_value nl (optLine ! k) (fmt_e12 (nomPars ! k * exp (optPars ! k))) of
              Inl e \<Rightarrow> Inl e
            | Inr nl' \<Rightarrow> update_loop optLine nomPars optPars ks nl')
      else Inl IndexError)"

text \<open>\<open>' '.join(thisLine)\<close>\<close>

fun join_sp :: "string list \<Rightarrow> string" where
  "join_sp [] = []"
| "join_sp [t] = t"
| "join_sp (t # u # ts) = t @ '' '' @ join_sp (u # ts)"

definition newline :: string where
  "newline = [CHR 0x0A]"

text \<open>
  The records written by the loop \<open>for k in range(numlines_netlist)\<close> (lines 97-100), one
  per \<open>write\<close> call; the file is their concatenation.
\<close>

definition netlist_records :: "netlist \<Rightarrow> nat \<Rightarrow> error + string list" where
  "netlist_records nl numlines =
     (if numlines \<le> length nl
      then Inr (map (\<lambda>k. join_sp (nl ! k) @ newline) [0..<numlines])
      else Inl IndexError)"

subsection \<open>Startup resolution of the tunable instances (\<open>main\<close>, lines 410-436)\<close>

record resolve_state =
  rs_OptLine :: "nat list"
  rs_UB :: "real list"
  rs_LB :: "real list"
  rs_kkk :: nat

text \<open>
  The inner loop over the netlist lines for the instance name with index \<open>kk\<close>; \<open>k\<close> is
  the index of the first line of the list still to be scanned. The bounds of the control
  file are taken as numbers already, so that \<open>float\<close> of them is the identity.
\<close>

fun scan_lines ::
  "string list \<Rightarrow> real list \<Rightarrow> real list \<Rightarrow> nat \<Rightarrow> netlist \<Rightarrow> nat \<Rightarrow> resolve_state
     \<Rightarrow> error + resolve_state" where
  "scan_lines names maxVals minVals kk [] k st = Inr st"
| "scan_lines names maxVals minVals kk (thisLine # rest) k st =
     (case thisLine of
        [] \<Rightarrow> Inl IndexError
      | designator # _ \<Rightarrow>
          if sublist (names ! kk) designator
          then (if rs_kkk st - 1 < length (rs_OptLine st)
                   \<and> kk < length maxVals \<and> rs_kkk st - 1 < length (rs_UB st)
                   \<and> kk < length minVals \<and> rs_kkk st - 1 < length (rs_LB st)
                then scan_lines names maxVals minVals kk rest (Suc k)
                       (st\<lparr>rs_OptLine := (rs_OptLine st)[rs_kkk st - 1 := k],
                           rs_UB := (rs_UB st)[rs_kkk st - 1 := maxVals ! kk],
                           rs_LB := (rs_LB st)[rs_kkk st - 1 := minVals ! kk],
                           rs_kkk := rs_kkk st + 1\<rparr>)
                else Inl IndexError)
          else scan_lines names maxVals minVals kk rest (Suc k) st)"

text \<open>The outer loop \<open>for kk in range(numOptd)\<close>.\<close>

fun scan_names ::
  "string list \<Rightarrow> real list \<Rightarrow> real list \<Rightarrow> netlist \<Rightarrow> nat list \<Rightarrow> resolve_state
     \<Rightarrow> error + resolve_state" where
  "scan_names names maxVals minVals nl [] st = Inr st"
| "scan_names names maxVals minVals nl (kk # kks) st =
     (case scan_lines names maxVals minVals kk nl 0 st of
        Inl e \<Rightarrow> Inl e
      | Inr st' \<Rightarrow> scan_names names maxVals minVals nl kks st')"

definition resolve_instances ::
  "string list \<Rightarrow> real list \<Rightarrow> real list \<Rightarrow> netlist \<Rightarrow> error + resolve_state" where
  "resolve_instances names maxVals minVals nl =
     (let numOptd = length names;
          st0 = \<lparr>rs_OptLine = replicate numOptd 0, rs_UB = replicate numOptd 0,
                 rs_LB = replicate numOptd 0, rs_kkk = 1\<rparr>
      in case scan_names names maxVals minVals nl [0..<numOptd] st0 of
           Inl e \<Rightarrow> Inl e
         | Inr st \<Rightarrow>
             (let numMatchingInstFound = rs_kkk st - 1
              in if numOptd \<noteq> numMatchingInstFound then Inl Exit_InstanceCount
                 else Inr st))"

subsection \<open>Simulation synchronizer\<close>

text \<open>
  What one call observes of the simulator and of the result file: the MD5 digest of
  the \<open>.raw\<close> file as the call finds it, the exit status of \<open>subprocess.call\<close>, the digest
  read by the \<open>n\<close>-th poll, and the traces that \<open>RawRead\<close> finds once the polling is over.
\<close>

record sim_world =
  raw_md5 :: string
  exit_status :: int
  poll_md5 :: "nat \<Rightarrow> string"
  raw_traces :: "string \<Rightarrow> complex list option"

text \<open>
  \<open>while md5_post == md5: time.sleep(0.2); md5_post = md5(raw file)\<close>, with \<open>n\<close> the number
  of polls made so far. The loop has no bound, so it is a partial function.
\<close>

partial_function (option) poll_loop ::
  "string \<Rightarrow> (nat \<Rightarrow> string) \<Rightarrow> nat \<Rightarrow> string \<Rightarrow> (nat \<times> string) option" where
  "poll_loop md5 reads n md5_post =
     (if md5_post = md5 then poll_loop md5 reads (Suc n) (reads n) else Some (n, md5_post))"

text \<open>The digest of the empty file that \<open>runSim\<close> has just created.\<close>

definition empty_md5 :: string where
  "empty_md5 = ''d41d8cd98f00b204e9800998ecf8427e''"

text \<open>
  \<open>runSim\<close> (lines 158-179). \<open>None\<close>: the call never returns; \<open>Some (Inl e)\<close>: the run is
  aborted; \<open>Some (Inr n)\<close>: the call returns after \<open>n\<close> polls.
\<close>

definition runSim :: "sim_world \<Rightarrow> (error + nat) option" where
  "runSim w =
     (let md5 = empty_md5;
          status = exit_status w;
          md5_post = md5
      in case poll_loop md5 (poll_md5 w) 0 md5_post of
           None \<Rightarrow> None
         | Some (n, _) \<Rightarrow> Some (if status \<noteq> 0 then Inl Exit_SimFailed else Inr n))"

subsection \<open>numpy primitives used by the objective function\<close>

text \<open>
  Elementwise arithmetic of two one-dimensional arrays, with numpy's broadcasting of an
  array of length one; other shapes raise \<open>ValueError\<close>.
\<close>

definition np_binop ::
  "(real \<Rightarrow> real \<Rightarrow> real) \<Rightarrow> real list \<Rightarrow> real list \<Rightarrow> error + real list" where
  "np_binop f xs ys =
     (if length xs = length ys then Inr (map2 f xs ys)
      else if length xs = 1 then Inr (map (f (hd xs)) ys)
      else if length ys = 1 then Inr (map (\<lambda>x. f x (hd ys)) xs)
      else Inl ValueError)"

fun np_diff :: "real list \<Rightarrow> real list" where
  "np_diff (a # b # xs) = (b - a) # np_diff (b # xs)"
| "np_diff xs = []"

fun np_cumsum :: "real \<Rightarrow> real list \<Rightarrow> real list" where
  "np_cumsum acc [] = []"
| "np_cumsum acc (x # xs) = (acc + x) # np_cumsum (acc + x) xs"

definition np_mod :: "real \<Rightarrow> real \<Rightarrow> real" where
  "np_mod a b = a - b * of_int \<lfloor>a / b\<rfloor>"

text \<open>\<open>numpy.unwrap\<close> with its default period \<open>2 * pi\<close> and discontinuity \<open>pi\<close>.\<close>

definition np_unwrap :: "real list \<Rightarrow> real list" where
  "np_unwrap p =
     (let dd = np_diff p;
          ddmod = map (\<lambda>d. let m = np_mod (d + pi) (2 * pi) - pi
                            in if m = - pi \<and> 0 < d then pi else m) dd;
          ph_correct = map2 (\<lambda>m d. if \<bar>d\<bar> < pi then 0 else m - d) ddmod dd
      in case p of
           [] \<Rightarrow> []
         | p0 # ps \<Rightarrow> p0 # map2 (+) ps (np_cumsum 0 ph_correct))"

subsection \<open>Objective function \<open>optLTspice\<close> (lines 70-152)\<close>

record eval_ctx =
  netlistD :: netlist
  numlines_netlistD :: nat
  OptLineD :: "nat list"
  numOptdD :: nat
  nomParamsD :: "real list"
  targetD :: "real list"
  errWeightsD :: "real list"
  matchModeD :: int
  LTspice_output_nodeD :: string

record eval_result =
  err :: "real list"
  netlist_after :: netlist
  netlist_file :: string
  iterationCount :: nat

text \<open>Lines 126-138: the simulated response for the match mode.\<close>

definition optCurrent :: "int \<Rightarrow> complex list \<Rightarrow> error + real list" where
  "optCurrent matchMode outNode =
     (let fresp = map cmod outNode;
          phase = np_unwrap (map Arg outNode)
      in if matchMode = 1 then Inr fresp
         else if matchMode = 2 then Inr phase
         else if matchMode = 3 then Inr (fresp @ phase)
         else Inl UnboundLocalError)"

text \<open>Lines 140-146: the length check and the weighted error.\<close>

definition weighted_error :: "real list \<Rightarrow> real list \<Rightarrow> real list \<Rightarrow> error + real list" where
  "weighted_error target errWeights cur =
     (if length target \<noteq> length cur then Inl Exit_LengthMismatch
      else case np_binop (-) target cur of
             Inl e \<Rightarrow> Inl e
           | Inr e1 \<Rightarrow> np_binop (*) e1 errWeights)"

text \<open>Lines 123-146, once the polling is over.\<close>

definition read_and_compare :: "eval_ctx \<Rightarrow> sim_world \<Rightarrow> error + real list" where
  "read_and_compare c w =
     (case raw_traces w (LTspice_output_nodeD c) of
        None \<Rightarrow> Inl TraceNotFound
      | Some outNode \<Rightarrow>
          (case raw_traces w ''frequency'' of
             None \<Rightarrow> Inl TraceNotFound
           | Some freqx \<Rightarrow>
               (case optCurrent (matchModeD c) outNode of
                  Inl e \<Rightarrow> Inl e
                | Inr cur \<Rightarrow> weighted_error (targetD c) (errWeightsD c) cur)))"

text \<open>
  The whole evaluation. \<open>count\<close> is the global \<open>iterationCount\<close> before the call. \<open>None\<close>:
  the call never returns; \<open>Some (Inl e)\<close>: the run is aborted; \<open>Some (Inr r)\<close>: the call
  returns the residual \<open>err r\<close>.
\<close>

definition optLTspice ::
  "eval_ctx \<Rightarrow> real list \<Rightarrow> sim_world \<Rightarrow> nat \<Rightarrow> (error + eval_result) option" where
  "optLTspice c optParams w count =
     (case update_loop (OptLineD c) (nomParamsD c) optParams [0..<numOptdD c] (netlistD c) of
        Inl e \<Rightarrow> Some (Inl e)
      | Inr nl \<Rightarrow>
          (case netlist_records nl (numlines_netlistD c) of
             Inl e \<Rightarrow> Some (Inl e)
           | Inr recs \<Rightarrow>
               (let md5 = raw_md5 w;
                    status = exit_status w;
                    md5_post = md5
                in case poll_loop md5 (poll_md5 w) 0 md5_post of
                     None \<Rightarrow> None
                   | Some _ \<Rightarrow>
                       if status \<noteq> 0 then Some (Inl Exit_SimFailed)
                       else (case read_and_compare c w of
                               Inl e \<Rightarrow> Some (Inl e)
                             | Inr e2 \<Rightarrow>
                                 Some (Inr \<lparr>err = e2, netlist_after = nl,
                                            netlist_file = concat recs,
                                            iterationCount = count + 1\<rparr>)))))"

subsection \<open>Preferred-series quantizer \<open>round63\<close> (lines 243-346)\<close>

definition E3 :: "nat list" where
  "E3 = [100, 220, 470]"

definition E6 :: "nat list" where
  "E6 = [100, 150, 220, 330, 470, 680]"

definition E12 :: "nat list" where
  "E12 = [100, 120, 150, 180, 220, 270, 330, 390, 470, 560, 680, 820]"

definition E24 :: "nat list" where
  "E24 =
    [
     100, 110, 120, 130, 150, 160, 180, 200, 220, 240, 270, 300,
     330, 360, 390, 430, 470, 510, 560, 620, 680, 750, 820, 910]"

definition E48 :: "nat list" where
  "E48 =
    [
     100, 105, 110, 115, 121, 127, 133, 140, 147, 154, 162, 169,
     178, 187, 196, 205, 215, 226, 237, 249, 261, 274, 287, 301,
     316, 332, 348, 365, 383, 402, 422, 442, 464, 487, 511, 536,
     562, 590, 619, 649, 681, 715, 750, 787, 825, 866, 909, 953]"

definition E96 :: "nat list" where
  "E96 =
    [
     100, 102, 105, 107, 110, 113, 115, 118, 121, 124, 127, 130,
     133, 137, 140, 143, 147, 150, 154, 158, 162, 165, 169, 174,
     178, 182, 187, 191, 196, 200, 205, 210, 215, 221, 226, 232,
     237, 243, 249, 255, 261, 267, 274, 280, 287, 294, 301, 309,
     316, 324, 332, 340, 348, 357, 365, 374, 383, 392, 402, 412,
     422, 432, 442, 453, 464, 475, 487, 499, 511, 523, 536, 549,
     562, 576, 590, 604, 619, 634, 649, 665, 681, 698, 715, 732,
     750, 768, 787, 806, 825, 845, 866, 887, 909, 931, 953, 976]"

definition E192 :: "nat list" where
  "E192 =
    [
     100, 101, 102, 104, 105, 106, 107, 109, 110, 111, 113, 114,
     115, 117, 118, 120, 121, 123, 124, 126, 127, 129, 130, 132,
     133, 135, 137, 138, 140, 142, 143, 145, 147, 149, 150, 152,
     154, 156, 158, 160, 162, 164, 165, 167, 169, 172, 174, 176,
     178, 180, 182, 184, 187, 189, 191, 193, 196, 198, 200, 203,
     205, 208, 210, 213, 215, 218, 221, 223, 226, 229, 232, 234,
     237, 240, 243, 246, 249, 252, 255, 258, 261, 264, 267, 271,
     274, 277, 280, 284, 287, 291, 294, 298, 301, 305, 309, 312,
     316, 320, 324, 328, 332, 336, 340, 344, 348, 352, 357, 361,
     365, 370, 374, 379, 383, 388, 392, 397, 402, 407, 412, 417,
     422, 427, 432, 437, 442, 448, 453, 459, 464, 470, 475, 481,
     487, 493, 499, 505, 511, 517, 523, 530, 536, 542, 549, 556,
     562, 569, 576, 583, 590, 597, 604, 612, 619, 626, 634, 642,
     649, 657, 665, 673, 681, 690, 698, 706, 715, 723, 732, 741,
     750, 759, 768, 777, 787, 796, 806, 816, 825, 835, 845, 856,
     866, 876, 887, 898, 909, 920, 931, 942, 953, 965, 976, 988]"

definition E_SERIES :: "string \<Rightarrow> nat list option" where
  "E_SERIES ser =
     (if ser = ''E3'' then Some E3
      else if ser = ''E6'' then Some E6
      else if ser = ''E12'' then Some E12
      else if ser = ''E24'' then Some E24
      else if ser = ''E48'' then Some E48
      else if ser = ''E96'' then Some E96
      else if ser = ''E192'' then Some E192
      else None)"

datatype quantized = NaN | Value real

text \<open>
  The four bin-edge policies (lines 328-337); \<open>pns[:-1]\<close> is \<open>butlast pns\<close> and \<open>pns[1:]\<close>
  is \<open>tl pns\<close>.
\<close>

definition bin_edges :: "string \<Rightarrow> real list \<Rightarrow> error + real list" where
  "bin_edges rnd pns =
     (if rnd = ''harmonic''
      then Inr (map2 (\<lambda>a b. 2 * a * b / (a + b)) (butlast pns) (tl pns))
      else if rnd = ''arithmetic''
      then Inr (map2 (\<lambda>a b. (a + b) / 2) (butlast pns) (tl pns))
      else if rnd = ''up'' then Inr (butlast pns)
      else if rnd = ''down'' then Inr (tl pns)
      else Inl ValueError)"

text \<open>
  \<open>numpy.digitize(x, bins)\<close> for increasing bins: the index \<open>i\<close> with
  \<open>bins[i-1] <= x < bins[i]\<close>, that is the number of bins that are at most \<open>x\<close>. The bins
  built by \<open>bin_edges\<close> are increasing (lemma \<open>edges_sorted\<close> below).
\<close>

definition np_digitize :: "real \<Rightarrow> real list \<Rightarrow> nat" where
  "np_digitize x bins = length (filter (\<lambda>b. b \<le> x) bins)"

text \<open>
  Lines 318-326: the series extended over the decades \<open>omn - 3, ..., omx - 2\<close>, flattened
  decade by decade (\<open>order = 'F'\<close>).
\<close>

definition extend_series :: "nat list \<Rightarrow> int \<Rightarrow> int \<Rightarrow> real list" where
  "extend_series ns omn omx =
     (let temp = map (\<lambda>e. 10 powi e) [omn - 3 .. omx - 2]
      in concat (map (\<lambda>t. map (\<lambda>n. real n * t) ns) temp))"

text \<open>
  \<open>round63\<close> on a single value \<open>X\<close>, as \<open>update_schematic\<close> calls it. The series is looked
  up before anything else; a value without a finite real logarithm gives \<open>nan\<close> before the
  rounding method is looked at.
\<close>

definition round63 :: "real \<Rightarrow> string \<Rightarrow> string option \<Rightarrow> error + quantized" where
  "round63 X ser rnd0 =
     (let rnd = py_lower (case rnd0 of None \<Rightarrow> ''arithmetic'' | Some r \<Rightarrow> r)
      in case E_SERIES ser of
           None \<Rightarrow> Inl ValueError
         | Some ns \<Rightarrow>
             if \<not> 0 < X then Inr NaN
             else
               (let pwr = log 10 X;
                    omn = \<lfloor>pwr\<rfloor>;
                    omx = \<lceil>pwr\<rceil>;
                    pns = extend_series ns omn omx
                in case bin_edges rnd pns of
                     Inl e \<Rightarrow> Inl e
                   | Inr edg \<Rightarrow>
                       (let idx = np_digitize X edg;
                            idx = (if idx = 0 then 1 else idx)
                        in if idx < length pns then Inr (Value (pns ! idx))
                           else Inl IndexError)))"

subsection \<open>Shape of a written value token\<close>

text \<open>
  The shape of a token in exponential notation with twelve digits after the point: an
  optional minus sign, one digit, the point, twelve digits, \<open>e\<close>, the sign of the exponent
  and at least two exponent digits.
\<close>

definition e12_token :: "string \<Rightarrow> bool" where
  "e12_token s =
     (let u = (case s of [] \<Rightarrow> [] | c # r \<Rightarrow> if c = CHR ''-'' then r else s)
      in 18 \<le> length u \<and> is_digit (u ! 0) \<and> u ! 1 = CHR ''.''
         \<and> list_all is_digit (take 12 (drop 2 u))
         \<and> u ! 14 = CHR ''e'' \<and> (u ! 15 = CHR ''+'' \<or> u ! 15 = CHR ''-'')
         \<and> list_all is_digit (drop 16 u))"

text \<open>The number of digits of the coefficient, the part of the token before \<open>e\<close>.\<close>

definition significant_digits :: "string \<Rightarrow> nat" where
  "significant_digits s = length (filter is_digit (takeWhile (\<lambda>c. c \<noteq> CHR ''e'') s))"

subsection \<open>The simulated response in the words of the specification\<close>

text \<open>
  The magnitude trace in match mode 1, the unwrapped phase trace in match mode 2, the
  magnitude segment followed by the phase segment otherwise. This definition follows the
  specification and is compared with \<open>optCurrent\<close>, which follows the source.
\<close>

definition simulated_response :: "int \<Rightarrow> complex list \<Rightarrow> real list" where
  "simulated_response mode outNode =
     (if mode = 1 then map cmod outNode
      else if mode = 2 then np_unwrap (map Arg outNode)
      else map cmod outNode @ np_unwrap (map Arg outNode))"

subsection \<open>Example inputs\<close>

text \<open>
  A one-resistor netlist with the resistor bound as the only tunable instance, in match
  mode 1, and a simulator whose result file changes at the third poll.
\<close>

definition example_ctx :: "real list \<Rightarrow> eval_ctx" where
  "example_ctx tgt =
     \<lparr>netlistD = [[''R1'', ''1'', ''0'', ''1000'']], numlines_netlistD = 1,
      OptLineD = [0], numOptdD = 1, nomParamsD = [1000], targetD = tgt,
      errWeightsD = map (\<lambda>_. 2) tgt, matchModeD = 1, LTspice_output_nodeD = ''V(out)''\<rparr>"

definition example_world :: "int \<Rightarrow> complex list \<Rightarrow> sim_world" where
  "example_world st tr =
     \<lparr>raw_md5 = ''0123'', exit_status = st,
      poll_md5 = (\<lambda>n. if n < 2 then ''0123'' else ''4567''),
      raw_traces = (\<lambda>t. if t = ''V(out)'' then Some tr
                         else if t = ''frequency'' then Some (map (\<lambda>_. 1) tr) else None)\<rparr>"

text \<open>A simulator that fails to launch: exit status 1 and a result file that never changes.\<close>

definition failed_world :: "string \<Rightarrow> sim_world" where
  "failed_world h =
     \<lparr>raw_md5 = h, exit_status = 1, poll_md5 = (\<lambda>n. h), raw_traces = (\<lambda>t. None)\<rparr>"

subsection \<open>Resolution in the words of the specification\<close>

text \<open>
  The lines that an instance name resolves to: the indices of the netlist lines whose
  designator token contains the name. \<open>all_matches\<close> lists them for all requested names, in
  the order of the names.
\<close>

definition designator_contains :: "string \<Rightarrow> line \<Rightarrow> bool" where
  "designator_contains nm l = (case l of [] \<Rightarrow> False | d # _ \<Rightarrow> sublist nm d)"

fun match_idx :: "string \<Rightarrow> netlist \<Rightarrow> nat \<Rightarrow> nat list" where
  "match_idx nm [] k = []"
| "match_idx nm (l # ls) k =
     (if designator_contains nm l then k # match_idx nm ls (Suc k) else match_idx nm ls (Suc k))"

definition matching_lines :: "string \<Rightarrow> netlist \<Rightarrow> nat list" where
  "matching_lines nm nl = match_idx nm nl 0"

definition all_matches :: "string list \<Rightarrow> netlist \<Rightarrow> nat list" where
  "all_matches names nl = concat (map (\<lambda>nm. matching_lines nm nl) names)"

text \<open>
  Two notions for the proofs about the scanning loops: \<open>fill xs p vs\<close> stores the values
  \<open>vs\<close> in \<open>xs\<close> from position \<open>p\<close> on, and \<open>advance\<close> is the state after the matches \<open>ms\<close> of
  one name have been stored.
\<close>

fun fill :: "'a list \<Rightarrow> nat \<Rightarrow> 'a list \<Rightarrow> 'a list" where
  "fill xs p [] = xs"
| "fill xs p (v # vs) = fill (xs[p := v]) (Suc p) vs"

definition advance :: "resolve_state \<Rightarrow> nat list \<Rightarrow> real \<Rightarrow> real \<Rightarrow> resolve_state" where
  "advance st ms mx mn =
     st\<lparr>rs_OptLine := fill (rs_OptLine st) (rs_kkk st - 1) ms,
        rs_UB := fill (rs_UB st) (rs_kkk st - 1) (replicate (length ms) mx),
        rs_LB := fill (rs_LB st) (rs_kkk st - 1) (replicate (length ms) mn),
        rs_kkk := rs_kkk st + length ms\<rparr>"

text \<open>A netlist in which the name \<open>R1\<close> is contained in two designators.\<close>

definition example_netlist :: netlist where
  "example_netlist =
     [[''R1'', ''N001'', ''N002'', ''1k''], [''R10'', ''N002'', ''0'', ''2k''],
      [''C1'', ''N002'', ''0'', ''1u'']]"

subsection \<open>Notions for the proofs about the quantizer\<close>

text \<open>
  A series table as the proofs need it: strictly ascending, at least three values, the
  first one 100 and all below 1000. All seven tables of \<open>E_SERIES\<close> are of this kind.
\<close>

fun ascending :: "nat list \<Rightarrow> bool" where
  "ascending (x # y # zs) = (x < y \<and> ascending (y # zs))"
| "ascending zs = True"

definition valid_series :: "nat list \<Rightarrow> bool" where
  "valid_series ns =
     (ascending ns \<and> 3 \<le> length ns \<and> hd ns = 100 \<and> list_all (\<lambda>n. n < 1000) ns)"

text \<open>The rounding method after the default and \<open>lower()\<close>, and the methods that exist.\<close>

definition rnd_name :: "string option \<Rightarrow> string" where
  "rnd_name rnd0 = py_lower (case rnd0 of None \<Rightarrow> ''arithmetic'' | Some r \<Rightarrow> r)"

definition known_rnd :: "string \<Rightarrow> bool" where
  "known_rnd rnd = (rnd = ''harmonic'' \<or> rnd = ''arithmetic'' \<or> rnd = ''up'' \<or> rnd = ''down'')"

text \<open>The bin edge between two consecutive series values under each method.\<close>

definition edge_fn :: "string \<Rightarrow> real \<Rightarrow> real \<Rightarrow> real" where
  "edge_fn rnd a b =
     (if rnd = ''harmonic'' then 2 * a * b / (a + b)
      else if rnd = ''arithmetic'' then (a + b) / 2
      else if rnd = ''up'' then a
      else b)"

text \<open>
  The series over all decades, and two of its values with no value of the series between
  them.
\<close>

definition in_series :: "nat list \<Rightarrow> real \<Rightarrow> bool" where
  "in_series ns y = (\<exists>n e. n \<in> set ns \<and> y = real n * 10 powi e)"

definition neighbours :: "nat list \<Rightarrow> real \<Rightarrow> real \<Rightarrow> bool" where
  "neighbours ns p q =
     (in_series ns p \<and> in_series ns q \<and> p < q
      \<and> (\<forall>y. in_series ns y \<longrightarrow> \<not> (p < y \<and> y < q)))"

text \<open>The series over a list of decades.\<close>

definition blocks :: "nat list \<Rightarrow> int list \<Rightarrow> real list" where
  "blocks ns es = concat (map (\<lambda>e. map (\<lambda>n. real n * 10 powi e) ns) es)"

subsection \<open>Numerals of digits and a point\<close>

text \<open>The tokens such as \<open>100\<close>, \<open>4.7\<close> or \<open>.5\<close> to which a magnitude suffix is appended.\<close>

definition plain_numeral :: "string \<Rightarrow> bool" where
  "plain_numeral d = (d \<noteq> [] \<and> list_all (\<lambda>c. is_digit c \<or> c = CHR ''.'') d)"

section \<open>Properties\<close>

subsection \<open>Value codec\<close>

lemmas codec_defs = parse_value_def subst_suffixes_def py_isnumeric_def numeric_char_def
  py_lower_def lower_char_def py_float_def split_sign_def parse_number_def digitpart_def
  parse_exponent_def is_digit_def digit_val_def nat_of_digits_def power_int_minus
  char_of_def bit_0

lemma py_replace_absent: "c \<notin> set s \<Longrightarrow> py_replace (c # old) new s = s"
  by (induction s) auto

lemma py_replace_removes: "c \<notin> set new \<Longrightarrow> c \<notin> set (py_replace [c] new s)"
  by (induction s) auto

lemma py_replace_keeps_absent:
  "c \<notin> set new \<Longrightarrow> c \<notin> set s \<Longrightarrow> c \<notin> set (py_replace old new s)"
proof (induction old new s rule: py_replace.induct)
  case (1 old new)
  then show ?case by simp
next
  case (2 old new d cs)
  then show ?case
    by (auto dest: in_set_dropD)
qed

lemma numeric_no_micro: "py_isnumeric s \<Longrightarrow> CHR 0xB5 \<notin> set s"
  by (auto simp: py_isnumeric_def list_all_iff numeric_char_def)

lemma micro_replaced_once:
  "py_replace [CHR 0xB5] ''u'' (py_replace [CHR 0xB5] ''u'' tok) = py_replace [CHR 0xB5] ''u'' tok"
  by (rule py_replace_absent, rule py_replace_removes) simp

lemma py_replace_append_free:
  assumes "old \<noteq> []" and "hd old \<notin> set d"
  shows "py_replace old new (d @ t) = d @ py_replace old new t"
  using assms(2)
proof (induction d)
  case Nil
  then show ?case by simp
next
  case (Cons c d)
  from assms(1) obtain h hs where old: "old = h # hs" by (cases old) auto
  with Cons.prems have "h \<noteq> c" by auto
  then have "\<not> prefix old (c # d @ t)" by (simp add: old)
  then show ?case using Cons by simp
qed

lemma lower_plain: "is_digit c \<or> c = CHR ''.'' \<Longrightarrow> lower_char c = c"
  by (auto simp: lower_char_def is_digit_def Let_def)

lemma py_lower_append_plain:
  "list_all (\<lambda>c. is_digit c \<or> c = CHR ''.'') d \<Longrightarrow> py_lower (d @ t) = d @ py_lower t"
  by (simp add: py_lower_def list_all_iff lower_plain map_idI)

lemma plain_no_letter:
  assumes "list_all (\<lambda>c. is_digit c \<or> c = CHR ''.'') d"
    and "\<not> is_digit c" and "c \<noteq> CHR ''.''"
  shows "c \<notin> set d"
  using assms by (auto simp: list_all_iff)

lemma subst_suffixes_append_plain:
  assumes "list_all (\<lambda>c. is_digit c \<or> c = CHR ''.'') d"
  shows "subst_suffixes (d @ t) = d @ subst_suffixes t"
proof -
  have r: "py_replace old new (d @ u) = d @ py_replace old new u"
    if "old \<noteq> []" "\<not> is_digit (hd old)" "hd old \<noteq> CHR ''.''" for old new u
    using that by (intro py_replace_append_free plain_no_letter [OF assms]) simp_all
  show ?thesis
    unfolding subst_suffixes_def Let_def
    by (simp add: r py_lower_append_plain [OF assms] is_digit_def)
qed

lemma digits_tail_suffix: "suffix (snd (digits_tail s)) s"
proof (induction s rule: digits_tail.induct)
  case 1
  then show ?case by simp
next
  case (2 c)
  then show ?case by simp
next
  case (3 c d cs)
  then show ?case
    by (auto simp: suffix_Cons split: prod.splits)
qed

lemma digits_tail_append:
  assumes "CHR ''_'' \<notin> set s" and "\<not> is_digit c" and "c \<noteq> CHR ''_''"
  shows "digits_tail (s @ c # x) = (fst (digits_tail s), snd (digits_tail s) @ c # x)"
  using assms(1)
proof (induction s)
  case Nil
  then show ?case using assms(2,3) by (cases x) simp_all
next
  case (Cons a s)
  then have ih: "digits_tail (s @ c # x) = (fst (digits_tail s), snd (digits_tail s) @ c # x)"
    and a: "a \<noteq> CHR ''_''" by auto
  obtain b bs where sc: "s @ c # x = b # bs" by (cases "s @ c # x") auto
  show ?case
  proof (cases "is_digit a")
    case True
    have "digits_tail (a # b # bs) = (case digits_tail (b # bs) of (ds, r) \<Rightarrow> (digit_val a # ds, r))"
      using True by simp
    then have "digits_tail (a # s @ c # x)
                 = (case digits_tail (s @ c # x) of (ds, r) \<Rightarrow> (digit_val a # ds, r))"
      by (simp only: sc)
    then have "digits_tail (a # s @ c # x)
                 = (digit_val a # fst (digits_tail s), snd (digits_tail s) @ c # x)"
      by (simp only: ih prod.case)
    moreover have "digits_tail (a # s) = (digit_val a # fst (digits_tail s), snd (digits_tail s))"
      using True by (cases s) (simp_all split: prod.splits)
    ultimately show ?thesis by simp
  next
    case False
    have "digits_tail (a # b # bs) = ([], a # b # bs)"
      using False a by simp
    then have "digits_tail (a # s @ c # x) = ([], a # s @ c # x)"
      by (simp only: sc)
    moreover have "digits_tail (a # s) = ([], a # s)"
      using False a by (cases s) simp_all
    ultimately show ?thesis by simp
  qed
qed

lemma digitpart_append:
  assumes "CHR ''_'' \<notin> set s" and "\<not> is_digit c" and "c \<noteq> CHR ''_''"
  shows "digitpart (s @ c # x) = map_option (\<lambda>(ds, r). (ds, r @ c # x)) (digitpart s)"
proof (cases s)
  case Nil
  then show ?thesis using assms(2) by (simp add: digitpart_def)
next
  case (Cons a s')
  with assms(1) have "CHR ''_'' \<notin> set s'" by simp
  from digits_tail_append [OF this assms(2,3), of x] show ?thesis
    by (simp add: digitpart_def Cons split: prod.splits)
qed

lemma digitpart_rest:
  "digitpart s = Some (ds, r) \<Longrightarrow> set r \<subseteq> set s"
  using digits_tail_suffix [of "tl s"]
  by (cases s) (auto simp: digitpart_def split: if_splits prod.splits dest!: set_mono_suffix)

lemma parse_number_append:
  assumes us: "CHR ''_'' \<notin> set s" and c: "\<not> is_digit c" "c \<noteq> CHR ''_''" "c \<noteq> CHR ''.''"
  shows "parse_number (s @ c # x)
           = map_option (\<lambda>(ip, fp, r). (ip, fp, r @ c # x)) (parse_number s)"
proof (cases "digitpart s")
  case None
  then have n: "digitpart (s @ c # x) = None" by (simp add: digitpart_append [OF us c(1,2)])
  show ?thesis
  proof (cases s)
    case Nil
    then show ?thesis using n None c by (simp add: parse_number_def)
  next
    case (Cons a s')
    with us have "CHR ''_'' \<notin> set s'" by simp
    from digitpart_append [OF this c(1,2), of x] show ?thesis
      using n None by (simp add: parse_number_def Cons split: option.splits)
  qed
next
  case (Some p)
  obtain ip r where p: "p = (ip, r)" by (cases p)
  have d: "digitpart (s @ c # x) = Some (ip, r @ c # x)"
    using Some by (simp add: digitpart_append [OF us c(1,2)] p)
  from digitpart_rest [OF Some [unfolded p]] us have ur: "CHR ''_'' \<notin> set r" by auto
  show ?thesis
  proof (cases r)
    case Nil
    then show ?thesis using d Some c by (simp add: parse_number_def p)
  next
    case (Cons a r')
    with ur have "CHR ''_'' \<notin> set r'" by simp
    from digitpart_append [OF this c(1,2), of x] show ?thesis
      using d Some by (simp add: parse_number_def p Cons split: option.splits)
  qed
qed

lemma parse_number_rest:
  "parse_number s = Some (ip, fp, r) \<Longrightarrow> set r \<subseteq> set s"
  by (auto simp: parse_number_def split: option.splits list.splits if_splits
           dest!: digitpart_rest) blast+

lemma py_float_plain_exponent:
  assumes pl: "plain_numeral d" and v: "py_float d = Inr v"
    and ex: "parse_exponent (CHR ''e'' # x) = Some ex"
  shows "py_float (d @ CHR ''e'' # x) = Inr (v * 10 powi ex)"
proof -
  from pl have ne: "d \<noteq> []" and ch: "\<forall>c\<in>set d. is_digit c \<or> c = CHR ''.''"
    by (simp_all add: plain_numeral_def list_all_iff)
  have nd: "\<not> is_digit CHR ''e''" "\<not> is_digit CHR ''E''" "\<not> is_digit CHR ''_''"
    "\<not> is_digit CHR ''-''" "\<not> is_digit CHR ''+''"
    by (simp_all add: is_digit_def)
  from ch nd have us: "CHR ''_'' \<notin> set d" by auto
  from ne obtain a d' where d: "d = a # d'" by (cases d) auto
  with ch nd have a: "a \<noteq> CHR ''-''" "a \<noteq> CHR ''+''" by auto
  then have s1: "split_sign d = (False, d)" and s2: "split_sign (d @ CHR ''e'' # x) = (False, d @ CHR ''e'' # x)"
    by (simp_all add: split_sign_def d)
  from v s1 obtain ip fp r ex0 where pn: "parse_number d = Some (ip, fp, r)"
    and pe: "parse_exponent r = Some ex0"
    and vv: "v = real (nat_of_digits (ip @ fp)) * 10 powi (ex0 - int (length fp))"
    by (auto simp: py_float_def split: option.splits)
  from parse_number_rest [OF pn] ch nd have "CHR ''e'' \<notin> set r" "CHR ''E'' \<notin> set r" by auto
  with pe have r: "r = []" and ex0: "ex0 = 0"
    by (cases r; auto simp: parse_exponent_def split: if_splits)+
  have "parse_number (d @ CHR ''e'' # x) = Some (ip, fp, CHR ''e'' # x)"
    using parse_number_append [OF us, of "CHR ''e''" x] nd pn r by simp
  then have "py_float (d @ CHR ''e'' # x)
               = Inr (real (nat_of_digits (ip @ fp)) * 10 powi (ex - int (length fp)))"
    using s2 ex by (simp add: py_float_def)
  also have "real (nat_of_digits (ip @ fp)) * 10 powi (ex - int (length fp)) = v * 10 powi ex"
    by (simp add: vv ex0 power_int_diff power_int_minus field_simps)
  finally show ?thesis .
qed

lemma parse_value_plain_suffix:
  assumes pl: "plain_numeral d" and v: "py_float d = Inr v"
    and nn: "\<not> list_all numeric_char (py_replace [CHR 0xB5] ''u'' suf)"
    and ss: "subst_suffixes (py_replace [CHR 0xB5] ''u'' suf) = CHR ''e'' # x"
    and ex: "parse_exponent (CHR ''e'' # x) = Some ex"
  shows "parse_value (d @ suf) = Inr (v * 10 powi ex)"
proof -
  from pl have ch: "list_all (\<lambda>c. is_digit c \<or> c = CHR ''.'') d"
    by (simp add: plain_numeral_def)
  have "CHR 0xB5 \<notin> set d"
    by (rule plain_no_letter [OF ch]) (simp_all add: is_digit_def)
  then have m: "py_replace [CHR 0xB5] ''u'' (d @ suf) = d @ py_replace [CHR 0xB5] ''u'' suf"
    by (intro py_replace_append_free) simp_all
  have n: "\<not> py_isnumeric (d @ py_replace [CHR 0xB5] ''u'' suf)"
    using nn by (simp add: py_isnumeric_def)
  show ?thesis
    unfolding parse_value_def Let_def m
    using n by (simp add: subst_suffixes_append_plain [OF ch] ss
        py_float_plain_exponent [OF pl v ex])
qed

lemmas suffix_eval = subst_suffixes_def py_lower_def lower_char_def numeric_char_def
  parse_exponent_def split_sign_def digitpart_def is_digit_def digit_val_def nat_of_digits_def
  char_of_def bit_0

lemma parse_exponent_eval:
  "parse_exponent ''e-12'' = Some (- 12)" "parse_exponent ''e-9'' = Some (- 9)"
  "parse_exponent ''e-6'' = Some (- 6)" "parse_exponent ''e-3'' = Some (- 3)"
  "parse_exponent ''e3'' = Some 3" "parse_exponent ''e6'' = Some 6"
  "parse_exponent ''e9'' = Some 9"
  by (simp_all add: suffix_eval)

lemma parse_value_suffixes:
  assumes pl: "plain_numeral d" and v: "py_float d = Inr v"
  shows "parse_value (d @ ''pF'') = Inr (v * 10 powi (- 12))"
    and "parse_value (d @ ''pH'') = Inr (v * 10 powi (- 12))"
    and "parse_value (d @ ''p'') = Inr (v * 10 powi (- 12))"
    and "parse_value (d @ ''nF'') = Inr (v * 10 powi (- 9))"
    and "parse_value (d @ ''nH'') = Inr (v * 10 powi (- 9))"
    and "parse_value (d @ ''n'') = Inr (v * 10 powi (- 9))"
    and "parse_value (d @ ''uF'') = Inr (v * 10 powi (- 6))"
    and "parse_value (d @ ''uH'') = Inr (v * 10 powi (- 6))"
    and "parse_value (d @ ''u'') = Inr (v * 10 powi (- 6))"
    and "parse_value (d @ [CHR 0xB5]) = Inr (v * 10 powi (- 6))"
    and "parse_value (d @ [CHR 0xB5, CHR ''F'']) = Inr (v * 10 powi (- 6))"
    and "parse_value (d @ ''mF'') = Inr (v * 10 powi (- 3))"
    and "parse_value (d @ ''mH'') = Inr (v * 10 powi (- 3))"
    and "parse_value (d @ ''m'') = Inr (v * 10 powi (- 3))"
    and "parse_value (d @ ''k'') = Inr (v * 10 powi 3)"
    and "parse_value (d @ ''M'') = Inr (v * 10 powi 6)"
    and "parse_value (d @ ''G'') = Inr (v * 10 powi 9)"
proof -
  note r = parse_value_plain_suffix [OF pl v]
  show "parse_value (d @ ''pF'') = Inr (v * 10 powi (- 12))"
    by (rule r [OF _ _ parse_exponent_eval(1)]) (simp_all add: suffix_eval)
  show "parse_value (d @ ''pH'') = Inr (v * 10 powi (- 12))"
    by (rule r [OF _ _ parse_exponent_eval(1)]) (simp_all add: suffix_eval)
  show "parse_value (d @ ''p'') = Inr (v * 10 powi (- 12))"
    by (rule r [OF _ _ parse_exponent_eval(1)]) (simp_all add: suffix_eval)
  show "parse_value (d @ ''nF'') = Inr (v * 10 powi (- 9))"
    by (rule r [OF _ _ parse_exponent_eval(2)]) (simp_all add: suffix_eval)
  show "parse_value (d @ ''nH'') = Inr (v * 10 powi (- 9))"
    by (rule r [OF _ _ parse_exponent_eval(2)]) (simp_all add: suffix_eval)
  show "parse_value (d @ ''n'') = Inr (v * 10 powi (- 9))"
    by (rule r [OF _ _ parse_exponent_eval(2)]) (simp_all add: suffix_eval)
  show "parse_value (d @ ''uF'') = Inr (v * 10 powi (- 6))"
    by (rule r [OF _ _ parse_exponent_eval(3)]) (simp_all add: suffix_eval)
  show "parse_value (d @ ''uH'') = Inr (v * 10 powi (- 6))"
    by (rule r [OF _ _ parse_exponent_eval(3)]) (simp_all add: suffix_eval)
  show "parse_value (d @ ''u'') = Inr (v * 10 powi (- 6))"
    by (rule r [OF _ _ parse_exponent_eval(3)]) (simp_all add: suffix_eval)
  show "parse_value (d @ [CHR 0xB5]) = Inr (v * 10 powi (- 6))"
    by (rule r [OF _ _ parse_exponent_eval(3)]) (simp_all add: suffix_eval)
  show "parse_value (d @ [CHR 0xB5, CHR ''F'']) = Inr (v * 10 powi (- 6))"
    by (rule r [OF _ _ parse_exponent_eval(3)]) (simp_all add: suffix_eval)
  show "parse_value (d @ ''mF'') = Inr (v * 10 powi (- 3))"
    by (rule r [OF _ _ parse_exponent_eval(4)]) (simp_all add: suffix_eval)
  show "parse_value (d @ ''mH'') = Inr (v * 10 powi (- 3))"
    by (rule r [OF _ _ parse_exponent_eval(4)]) (simp_all add: suffix_eval)
  show "parse_value (d @ ''m'') = Inr (v * 10 powi (- 3))"
    by (rule r [OF _ _ parse_exponent_eval(4)]) (simp_all add: suffix_eval)
  show "parse_value (d @ ''k'') = Inr (v * 10 powi 3)"
    by (rule r [OF _ _ parse_exponent_eval(5)]) (simp_all add: suffix_eval)
  show "parse_value (d @ ''M'') = Inr (v * 10 powi 6)"
    by (rule r [OF _ _ parse_exponent_eval(6)]) (simp_all add: suffix_eval)
  show "parse_value (d @ ''G'') = Inr (v * 10 powi 9)"
    by (rule r [OF _ _ parse_exponent_eval(7)]) (simp_all add: suffix_eval)
qed

text \<open>
  Claim C6. The value-token rules in their order. The micro sign is replaced first: a
  token and its micro-replaced form parse alike. A token that \<open>isnumeric\<close> accepts goes to
  \<open>float\<close> as it is. Otherwise the suffixes are substituted, the two-letter combinations
  before the bare letter: for every numeral \<open>d\<close> of digits and a point that \<open>float\<close> reads as
  \<open>v\<close>, the tokens \<open>d\<close> with \<open>pF\<close>, \<open>pH\<close> or \<open>p\<close> appended parse to \<open>v * 1e-12\<close>, capital \<open>M\<close>
  and \<open>G\<close> stand for \<open>1e6\<close> and \<open>1e9\<close>, small \<open>m\<close> and \<open>k\<close> for \<open>1e-3\<close> and \<open>1e3\<close>, and the
  micro sign for \<open>1e-6\<close>. The tokens \<open>4.7k\<close>, \<open>100n\<close>, \<open>2.2pF\<close>, \<open>1u\<close> parse to \<open>4700\<close>,
  \<open>1e-7\<close>, \<open>2.2e-12\<close>, \<open>1e-6\<close>.
\<close>

theorem value_token_rules:
  "parse_value tok = parse_value (py_replace [CHR 0xB5] ''u'' tok)
   \<and> (py_isnumeric tok \<longrightarrow> parse_value tok = py_float tok)
   \<and> (plain_numeral d \<and> py_float d = Inr v \<longrightarrow>
         parse_value (d @ [CHR 0xB5]) = Inr (v * 10 powi (- 6))
         \<and> parse_value (d @ ''pF'') = Inr (v * 10 powi (- 12))
         \<and> parse_value (d @ ''pH'') = Inr (v * 10 powi (- 12))
         \<and> parse_value (d @ ''p'') = Inr (v * 10 powi (- 12))
         \<and> parse_value (d @ ''M'') = Inr (v * 10 powi 6)
         \<and> parse_value (d @ ''G'') = Inr (v * 10 powi 9)
         \<and> parse_value (d @ ''m'') = Inr (v * 10 powi (- 3))
         \<and> parse_value (d @ ''k'') = Inr (v * 10 powi 3))
   \<and> parse_value ''4.7k'' = Inr 4700
   \<and> parse_value ''100n'' = Inr (1 / 10 ^ 7)
   \<and> parse_value ''2.2pF'' = Inr (22 / 10 ^ 13)
   \<and> parse_value ''1u'' = Inr (1 / 10 ^ 6)"
proof -
  have micro: "parse_value tok = parse_value (py_replace [CHR 0xB5] ''u'' tok)"
    by (simp only: parse_value_def micro_replaced_once)
  have plain: "py_isnumeric tok \<longrightarrow> parse_value tok = py_float tok"
    by (simp add: parse_value_def py_replace_absent numeric_no_micro)
  have suffixes: "plain_numeral d \<and> py_float d = Inr v \<longrightarrow>
         parse_value (d @ [CHR 0xB5]) = Inr (v * 10 powi (- 6))
         \<and> parse_value (d @ ''pF'') = Inr (v * 10 powi (- 12))
         \<and> parse_value (d @ ''pH'') = Inr (v * 10 powi (- 12))
         \<and> parse_value (d @ ''p'') = Inr (v * 10 powi (- 12))
         \<and> parse_value (d @ ''M'') = Inr (v * 10 powi 6)
         \<and> parse_value (d @ ''G'') = Inr (v * 10 powi 9)
         \<and> parse_value (d @ ''m'') = Inr (v * 10 powi (- 3))
         \<and> parse_value (d @ ''k'') = Inr (v * 10 powi 3)"
  proof
    assume a: "plain_numeral d \<and> py_float d = Inr v"
    then have pl: "plain_numeral d" and v: "py_float d = Inr v" by simp_all
    note s = parse_value_suffixes [OF pl v]
    from s(10) s(1) s(2) s(3) s(16) s(17) s(14) s(15)
    show "parse_value (d @ [CHR 0xB5]) = Inr (v * 10 powi (- 6))
         \<and> parse_value (d @ ''pF'') = Inr (v * 10 powi (- 12))
         \<and> parse_value (d @ ''pH'') = Inr (v * 10 powi (- 12))
         \<and> parse_value (d @ ''p'') = Inr (v * 10 powi (- 12))
         \<and> parse_value (d @ ''M'') = Inr (v * 10 powi 6)
         \<and> parse_value (d @ ''G'') = Inr (v * 10 powi 9)
         \<and> parse_value (d @ ''m'') = Inr (v * 10 powi (- 3))
         \<and> parse_value (d @ ''k'') = Inr (v * 10 powi 3)"
      by (intro conjI)
  qed
  have e1: "parse_value ''4.7k'' = Inr 4700" by (simp add: codec_defs)
  have e2: "parse_value ''100n'' = Inr (1 / 10 ^ 7)" by (simp add: codec_defs)
  have e3: "parse_value ''2.2pF'' = Inr (22 / 10 ^ 13)" by (simp add: codec_defs)
  have e4: "parse_value ''1u'' = Inr (1 / 10 ^ 6)" by (simp add: codec_defs)
  from micro plain suffixes e1 e2 e3 e4 show ?thesis
    by (intro conjI)
qed

theorem value_token_rules_witness:
  "py_isnumeric ''1000'' \<and> parse_value ''1000'' = py_float ''1000''
   \<and> py_float ''1000'' = Inr 1000
   \<and> plain_numeral ''4.7'' \<and> py_float ''4.7'' = Inr (47 / 10)
   \<and> parse_value ''4.7k'' = Inr (47 / 10 * 10 powi 3)
   \<and> parse_value ''4.7M'' = Inr (47 / 10 * 10 powi 6)"
proof -
  have n: "py_isnumeric ''1000''" by (simp add: codec_defs)
  have p: "plain_numeral ''4.7''" by (simp add: plain_numeral_def is_digit_def)
  have f: "py_float ''4.7'' = Inr (47 / 10)" by (simp add: codec_defs)
  note t = value_token_rules [of "''1000''" "''4.7''" "47 / 10"]
  from t n have "parse_value ''1000'' = py_float ''1000''" by blast
  moreover have "py_float ''1000'' = Inr 1000" by (simp add: codec_defs)
  moreover from t p f have "parse_value (''4.7'' @ ''k'') = Inr (47 / 10 * 10 powi 3)" by blast
  moreover from t p f have "parse_value (''4.7'' @ ''M'') = Inr (47 / 10 * 10 powi 6)" by blast
  ultimately show ?thesis using n p f by simp
qed

text \<open>
  Claim C10. The substitution of a magnitude letter is a \<open>replace\<close> of every occurrence:
  no \<open>n\<close> is left anywhere in a substituted token, and \<open>2n2\<close> becomes \<open>2e-92\<close>, which parses,
  without an error, to \<open>2e-92\<close> and not to \<open>2.2e-9\<close>.
\<close>

theorem suffix_replaced_everywhere:
  "CHR ''n'' \<notin> set (subst_suffixes s)
   \<and> subst_suffixes ''2n2'' = ''2e-92''
   \<and> parse_value ''2n2'' = Inr (2 / 10 ^ 92)
   \<and> parse_value ''2n2'' \<noteq> Inr (22 / 10 ^ 10)"
proof -
  have "CHR ''n'' \<notin> set (subst_suffixes s)"
    unfolding subst_suffixes_def Let_def
    by (intro py_replace_keeps_absent py_replace_removes) simp_all
  moreover have "subst_suffixes ''2n2'' = ''2e-92''" by (simp add: codec_defs)
  moreover have v: "parse_value ''2n2'' = Inr (2 / 10 ^ 92)" by (simp add: codec_defs)
  moreover have "parse_value ''2n2'' \<noteq> Inr (22 / 10 ^ 10)" by (simp add: v)
  ultimately show ?thesis by (intro conjI)
qed

subsection \<open>Decimal logarithm, digits and the format \<open>.12e\<close>\<close>

lemma powr_powi10: "(10::real) powr (real_of_int k) = 10 powi k"
  by (simp add: powr_real_of_int' power_int_def)

lemma floor_log10_bounds:
  assumes "0 < x"
  shows "10 powi \<lfloor>log 10 x\<rfloor> \<le> x" and "x < 10 powi (\<lfloor>log 10 x\<rfloor> + 1)"
proof -
  have "\<lfloor>log 10 x\<rfloor> = \<lfloor>log 10 x\<rfloor>" ..
  then have "10 powr (real_of_int \<lfloor>log 10 x\<rfloor>) \<le> x \<and> x < 10 powr (real_of_int (\<lfloor>log 10 x\<rfloor> + 1))"
    using assms floor_log_eq_powr_iff [of x 10 "\<lfloor>log 10 x\<rfloor>"] by simp
  then show "10 powi \<lfloor>log 10 x\<rfloor> \<le> x" and "x < 10 powi (\<lfloor>log 10 x\<rfloor> + 1)"
    by (simp_all only: powr_powi10)
qed

lemma floor_log10_eq:
  assumes "10 powi k \<le> x" "x < 10 powi (k + 1)"
  shows "\<lfloor>log 10 x\<rfloor> = k"
proof -
  have "0 < (10::real) powi k" by simp
  then have "0 < x" using assms(1) by linarith
  moreover have "10 powr (real_of_int k) \<le> x \<and> x < 10 powr (real_of_int (k + 1))"
    using assms by (simp only: powr_powi10) 
  ultimately show ?thesis
    using floor_log_eq_powr_iff [of x 10 k] by simp
qed

lemma ceiling_log10_eq:
  assumes "10 powi (k - 1) < x" "x \<le> 10 powi k"
  shows "\<lceil>log 10 x\<rceil> = k"
proof -
  have "0 < (10::real) powi (k - 1)" by simp
  then have x: "0 < x" using assms(1) by linarith
  have "real_of_int (k - 1) < log 10 x"
    using assms(1) x by (simp add: less_log_iff powr_powi10 del: of_int_diff)
  moreover have "log 10 x \<le> real_of_int k"
    using assms(2) x by (simp add: log_le_iff powr_powi10)
  ultimately show ?thesis by (simp add: ceiling_eq_iff)
qed

lemma is_digit_digit_char: "d < 10 \<Longrightarrow> is_digit (digit_char d)"
proof -
  assume "d < 10"
  then have "d \<in> {0,1,2,3,4,5,6,7,8,9}" by auto
  then show ?thesis by (auto simp: is_digit_def digit_char_def)
qed

lemma dec_digits_all: "list_all is_digit (dec_digits n)"
proof (induction n rule: dec_digits.induct)
  case (1 n)
  show ?case
  proof (cases "n < 10")
    case True
    then show ?thesis by (subst dec_digits.simps) (simp add: is_digit_digit_char)
  next
    case False
    then show ?thesis using 1
      by (subst dec_digits.simps) (simp add: is_digit_digit_char)
  qed
qed

lemma dec_digits_length: "10 ^ k \<le> n \<Longrightarrow> n < 10 ^ (k + 1) \<Longrightarrow> length (dec_digits n) = k + 1"
proof (induction k arbitrary: n)
  case 0
  then show ?case by (subst dec_digits.simps) simp
next
  case (Suc k)
  have "(10::nat) \<le> 10 ^ Suc k" using power_increasing [of 1 "Suc k" "10::nat"] by simp
  with Suc.prems(1) have n: "\<not> n < 10" by linarith
  have "10 ^ k \<le> n div 10" using Suc.prems(1) by (simp add: less_eq_div_iff_mult_less_eq)
  moreover have "n div 10 < 10 ^ (k + 1)" using Suc.prems(2) by (simp add: div_less_iff_less_mult)
  ultimately have "length (dec_digits (n div 10)) = k + 1" by (rule Suc.IH)
  then show ?case using n by (subst dec_digits.simps) simp
qed

lemma dec_digits_length_ge: "0 < length (dec_digits n)"
  by (subst dec_digits.simps) simp

lemma round_half_even_bounds: "\<lfloor>r\<rfloor> \<le> round_half_even r \<and> round_half_even r \<le> \<lfloor>r\<rfloor> + 1"
  by (simp add: round_half_even_def Let_def)

lemma mantissa_range:
  assumes "v \<noteq> 0"
  defines "e0 \<equiv> \<lfloor>log 10 \<bar>v\<bar>\<rfloor>"
  defines "m0 \<equiv> round_half_even (\<bar>v\<bar> / 10 powi (e0 - 12))"
  shows "10 ^ 12 \<le> m0 \<and> m0 \<le> 10 ^ 13"
proof -
  have a: "0 < \<bar>v\<bar>" using assms(1) by simp
  have lo: "10 powi e0 \<le> \<bar>v\<bar>" and hi: "\<bar>v\<bar> < 10 powi (e0 + 1)"
    unfolding e0_def using floor_log10_bounds [OF a] by simp_all
  define q where "q = \<bar>v\<bar> / 10 powi (e0 - 12)"
  have p: "(0::real) < 10 powi (e0 - 12)" by simp
  have s1: "(10::real) powi e0 = 10 ^ 12 * 10 powi (e0 - 12)"
    by (simp add: power_int_diff)
  have s2: "(10::real) powi (e0 + 1) = 10 ^ 13 * 10 powi (e0 - 12)"
    by (simp add: power_int_diff power_int_add)
  have q1: "10 ^ 12 \<le> q"
    unfolding q_def using lo p s1 by (simp add: pos_le_divide_eq)
  have q2: "q < 10 ^ 13"
    unfolding q_def using hi p s2 by (simp add: pos_divide_less_eq)
  have f1: "(10::int) ^ 12 \<le> \<lfloor>q\<rfloor>" using q1 by (simp add: le_floor_iff)
  have f2: "\<lfloor>q\<rfloor> < (10::int) ^ 13" using q2 by (simp add: floor_less_iff)
  from round_half_even_bounds [of q] f1 f2 show ?thesis
    unfolding m0_def q_def by linarith
qed

lemma fmt_e12_form:
  "\<exists>neg d0 dr sg ex.
      fmt_e12 v = (if neg then ''-'' else []) @ d0 # CHR ''.'' # dr @ CHR ''e'' # sg # ex
      \<and> is_digit d0 \<and> length dr = 12 \<and> list_all is_digit dr
      \<and> (sg = CHR ''+'' \<or> sg = CHR ''-'') \<and> 2 \<le> length ex \<and> list_all is_digit ex"
proof (cases "v = 0")
  case True
  have "fmt_e12 v = (if False then ''-'' else []) @ CHR ''0'' # CHR ''.'' # ''000000000000''
          @ CHR ''e'' # CHR ''+'' # ''00''"
    using True by (simp add: fmt_e12_def)
  moreover have "is_digit CHR ''0''" by (simp add: is_digit_def)
  ultimately show ?thesis
    by (intro exI conjI) (assumption, simp_all)
next
  case False
  define e0 where "e0 = \<lfloor>log 10 \<bar>v\<bar>\<rfloor>"
  define m0 where "m0 = round_half_even (\<bar>v\<bar> / 10 powi (e0 - 12))"
  define m where "m = (if m0 = 10 ^ 13 then 10 ^ 12 else m0)"
  define e where "e = (if m0 = 10 ^ 13 then e0 + 1 else e0)"
  define ds where "ds = dec_digits (nat m)"
  define xs where "xs = dec_digits (nat \<bar>e\<bar>)"
  define sg where "sg = (if e < 0 then CHR ''-'' else CHR ''+'')"
  have "fmt_e12 v = (if v < 0 then ''-'' else []) @ [hd ds] @ ''.'' @ tl ds
           @ ''e'' @ (if e < 0 then ''-'' else ''+'') @ pad2 xs"
    unfolding fmt_e12_def Let_def ds_def xs_def e_def m_def m0_def e0_def
    using False by (simp only: if_False)
  then have fmt: "fmt_e12 v = (if v < 0 then ''-'' else []) @ hd ds # CHR ''.'' # tl ds
           @ CHR ''e'' # sg # pad2 xs"
    by (simp add: sg_def)
  from mantissa_range [OF False] have "10 ^ 12 \<le> m0 \<and> m0 \<le> 10 ^ 13"
    unfolding e0_def m0_def .
  then have mr: "10 ^ 12 \<le> m \<and> m < 10 ^ 13" unfolding m_def by auto
  then have "10 ^ 12 \<le> nat m \<and> nat m < 10 ^ (12 + 1)"
    by (simp add: le_nat_iff nat_less_iff)
  then have len: "length ds = 13"
    unfolding ds_def using dec_digits_length [of 12 "nat m"] by simp
  have dig: "list_all is_digit ds" unfolding ds_def by (rule dec_digits_all)
  from len obtain d0 dr where ds: "ds = d0 # dr" and ldr: "length dr = 12"
    by (cases ds) auto
  have d0: "is_digit (hd ds)" and dr: "list_all is_digit (tl ds)" and ltl: "length (tl ds) = 12"
    using dig ds ldr by simp_all
  have xs: "list_all is_digit xs" "0 < length xs"
    unfolding xs_def by (rule dec_digits_all, rule dec_digits_length_ge)
  have ex: "pad2 xs = (if length xs < 2 then CHR ''0'' # xs else xs)"
    by (simp add: pad2_def)
  have exd: "list_all is_digit (pad2 xs)" using xs(1) by (simp add: ex is_digit_def)
  have exl: "2 \<le> length (pad2 xs)" using xs(2) by (cases xs) (auto simp: pad2_def Suc_le_eq)
  have sg: "sg = CHR ''+'' \<or> sg = CHR ''-''" by (simp add: sg_def)
  from fmt d0 ltl dr sg exl exd show ?thesis
    by (intro exI conjI)
qed

lemma e12_token_form:
  assumes "s = (if neg then ''-'' else []) @ d0 # CHR ''.'' # dr @ CHR ''e'' # sg # ex"
    and d0: "is_digit d0" and ldr: "length dr = 12" and dr: "list_all is_digit dr"
    and sg: "sg = CHR ''+'' \<or> sg = CHR ''-''" and exl: "2 \<le> length ex"
    and exd: "list_all is_digit ex"
  shows "e12_token s" and "significant_digits s = 13"
    and "list_all (\<lambda>c. is_digit c \<or> c \<in> set ''.e+-'') s"
proof -
  define pre where "pre = d0 # CHR ''.'' # dr"
  define u where "u = pre @ CHR ''e'' # sg # ex"
  have lp: "length pre = 14" by (simp add: pre_def ldr)
  have s: "s = (if neg then CHR ''-'' # u else u)" by (simp add: assms(1) u_def pre_def)
  have c1: "18 \<le> length u" using exl by (simp add: u_def lp)
  have c2: "is_digit (u ! 0)" using d0 by (simp add: u_def pre_def)
  have c3: "u ! 1 = CHR ''.''" by (simp add: u_def pre_def)
  have "drop 2 u = dr @ CHR ''e'' # sg # ex" by (simp add: u_def pre_def)
  then have c4: "list_all is_digit (take 12 (drop 2 u))" using dr ldr by simp
  have c5: "u ! 14 = CHR ''e''" using lp by (simp add: u_def nth_append)
  have "u ! 15 = sg" using lp by (simp add: u_def nth_append)
  then have c6: "u ! 15 = CHR ''+'' \<or> u ! 15 = CHR ''-''" using sg by simp
  have "drop 16 u = ex" using lp by (simp add: u_def)
  then have c7: "list_all is_digit (drop 16 u)" using exd by simp
  have hdu: "hd u \<noteq> CHR ''-''" using d0 by (auto simp: u_def pre_def is_digit_def)
  have une: "u \<noteq> []" by (simp add: u_def)
  have strip: "(case s of [] \<Rightarrow> [] | c # r \<Rightarrow> if c = CHR ''-'' then r else s) = u"
    using hdu une by (cases u) (simp_all add: s)
  show "e12_token s"
    unfolding e12_token_def Let_def strip
    using c1 c2 c3 c4 c5 c6 c7 by (intro conjI)
  have ne: "\<forall>c\<in>set dr. c \<noteq> CHR ''e''" "d0 \<noteq> CHR ''e''"
    using dr d0 by (auto simp: list_all_iff is_digit_def)
  have tw: "takeWhile (\<lambda>c. c \<noteq> CHR ''e'') s = (if neg then ''-'' else []) @ d0 # CHR ''.'' # dr"
    using ne by (simp add: assms(1) takeWhile_append1 takeWhile_tail)
  have fd: "filter is_digit dr = dr" using dr by (simp add: list_all_iff)
  have nd: "\<not> is_digit CHR ''-''" "\<not> is_digit CHR ''.''" by (simp_all add: is_digit_def)
  show "significant_digits s = 13"
    unfolding significant_digits_def tw using d0 fd nd ldr by simp
  have w: "\<And>xs. list_all is_digit xs \<Longrightarrow> list_all (\<lambda>c. is_digit c \<or> c \<in> set ''.e+-'') xs"
    by (simp add: list_all_iff)
  show "list_all (\<lambda>c. is_digit c \<or> c \<in> set ''.e+-'') s"
    using d0 sg w [OF dr] w [OF exd] by (auto simp: assms(1))
qed

lemma fmt_e12_shape:
  "e12_token (fmt_e12 v) \<and> significant_digits (fmt_e12 v) = 13
   \<and> list_all (\<lambda>c. is_digit c \<or> c \<in> set ''.e+-'') (fmt_e12 v)"
proof -
  from fmt_e12_form [of v] obtain neg d0 dr sg ex where
    "fmt_e12 v = (if neg then ''-'' else []) @ d0 # CHR ''.'' # dr @ CHR ''e'' # sg # ex"
    "is_digit d0" "length dr = 12" "list_all is_digit dr"
    "sg = CHR ''+'' \<or> sg = CHR ''-''" "2 \<le> length ex" "list_all is_digit ex"
    by blast
  from e12_token_form [OF this] show ?thesis by (intro conjI)
qed

subsection \<open>Netlist mutation and serialization\<close>

lemma set_value_Inr:
  "set_value nl i tok = Inr nl' \<Longrightarrow>
     i < length nl \<and> 3 < length (nl ! i) \<and> nl' = nl[i := (nl ! i)[3 := tok]]"
  by (auto simp: set_value_def split: if_splits)

lemma update_loop_frame:
  "update_loop optLine nomPars optPars ks nl = Inr nl' \<Longrightarrow>
     length nl' = length nl
     \<and> (\<forall>j<length nl. length (nl' ! j) = length (nl ! j)
            \<and> (\<forall>t<length (nl ! j). t \<noteq> 3 \<longrightarrow> nl' ! j ! t = nl ! j ! t)
            \<and> (j \<notin> (!) optLine ` set ks \<longrightarrow> nl' ! j = nl ! j))"
proof (induction ks arbitrary: nl)
  case Nil
  then show ?case by simp
next
  case (Cons k ks)
  from Cons.prems obtain nl1 where
    s: "set_value nl (optLine ! k) (fmt_e12 (nomPars ! k * exp (optPars ! k))) = Inr nl1"
    and r: "update_loop optLine nomPars optPars ks nl1 = Inr nl'"
    by (auto split: if_splits sum.splits)
  from set_value_Inr [OF s] have
    i: "optLine ! k < length nl" and
    nl1: "nl1 = nl[optLine ! k := (nl ! (optLine ! k))[3 := fmt_e12 (nomPars ! k * exp (optPars ! k))]]"
    by simp_all
  have len1: "length nl1 = length nl" by (simp add: nl1)
  have one: "\<And>j. j < length nl \<Longrightarrow> length (nl1 ! j) = length (nl ! j)
            \<and> (\<forall>t<length (nl ! j). t \<noteq> 3 \<longrightarrow> nl1 ! j ! t = nl ! j ! t)
            \<and> (j \<noteq> optLine ! k \<longrightarrow> nl1 ! j = nl ! j)"
    using i by (auto simp: nl1 nth_list_update)
  from Cons.IH [OF r] have ih:
    "length nl' = length nl1"
    "\<And>j. j < length nl1 \<Longrightarrow> length (nl' ! j) = length (nl1 ! j)
            \<and> (\<forall>t<length (nl1 ! j). t \<noteq> 3 \<longrightarrow> nl' ! j ! t = nl1 ! j ! t)
            \<and> (j \<notin> (!) optLine ` set ks \<longrightarrow> nl' ! j = nl1 ! j)"
    by simp_all
  show ?case
  proof (intro conjI allI impI)
    show "length nl' = length nl" using ih(1) len1 by simp
  next
    fix j assume j: "j < length nl"
    show "length (nl' ! j) = length (nl ! j)" using ih(2) [of j] one [of j] j len1 by simp
  next
    fix j t assume j: "j < length nl" and t: "t < length (nl ! j)" "t \<noteq> 3"
    show "nl' ! j ! t = nl ! j ! t" using ih(2) [of j] one [of j] j t len1 by simp
  next
    fix j assume j: "j < length nl" and n: "j \<notin> (!) optLine ` set (k # ks)"
    show "nl' ! j = nl ! j" using ih(2) [of j] one [of j] j n len1 by auto
  qed
qed

lemma join_sp_Cons: "join_sp (t # ts) = t @ concat (map (\<lambda>u. '' '' @ u) ts)"
  by (induction ts arbitrary: t) simp_all

lemma netlist_records_all:
  "netlist_records nl (length nl) = Inr (map (\<lambda>l. join_sp l @ newline) nl)"
proof -
  have "map (\<lambda>k. join_sp (nl ! k) @ newline) [0..<length nl] = map (\<lambda>l. join_sp l @ newline) nl"
    by (rule nth_equalityI) simp_all
  then show ?thesis by (simp add: netlist_records_def)
qed

lemma floor_log10_1000: "\<lfloor>log 10 1000\<rfloor> = 3"
  by (rule floor_log10_eq) (simp_all add: power_int_def)

lemma round_half_even_of_int: "round_half_even (of_int n) = n"
  by (simp add: round_half_even_def)

lemma fmt_e12_1000: "fmt_e12 1000 = ''1.000000000000e+03''"
proof -
  have q: "(1000::real) / 10 powi (3 - 12) = 1000000000000"
    by (simp add: power_int_def field_simps)
  have r: "round_half_even 1000000000000 = 1000000000000"
    using round_half_even_of_int [of 1000000000000] by simp
  have d: "dec_digits 1000000000000 = ''1000000000000''"
    by (simp add: dec_digits.simps digit_char_def)
  have d3: "dec_digits 3 = ''3''" by (simp add: dec_digits.simps digit_char_def)
  show ?thesis
    by (simp add: fmt_e12_def Let_def floor_log10_1000 q r d d3 pad2_def)
qed

lemma update_loop_written:
  "update_loop optLine nomPars optPars ks nl = Inr nl' \<Longrightarrow> k \<in> set ks \<Longrightarrow>
     \<exists>k'\<in>set ks. optLine ! k' = optLine ! k
        \<and> nl' ! (optLine ! k) ! 3 = fmt_e12 (nomPars ! k' * exp (optPars ! k'))"
proof (induction ks arbitrary: nl k)
  case Nil
  then show ?case by simp
next
  case (Cons k0 ks)
  from Cons.prems(1) obtain nl1 where
    s: "set_value nl (optLine ! k0) (fmt_e12 (nomPars ! k0 * exp (optPars ! k0))) = Inr nl1"
    and r: "update_loop optLine nomPars optPars ks nl1 = Inr nl'"
    by (auto split: if_splits sum.splits)
  show ?case
  proof (cases "optLine ! k \<in> (!) optLine ` set ks")
    case True
    then obtain k2 where k2: "k2 \<in> set ks" "optLine ! k2 = optLine ! k" by auto
    from Cons.IH [OF r k2(1)] k2(2) show ?thesis by auto
  next
    case False
    with Cons.prems(2) have kk: "optLine ! k = optLine ! k0" by auto
    from set_value_Inr [OF s] have
      i: "optLine ! k0 < length nl" and l3: "3 < length (nl ! (optLine ! k0))" and
      nl1: "nl1 = nl[optLine ! k0 := (nl ! (optLine ! k0))[3 := fmt_e12 (nomPars ! k0 * exp (optPars ! k0))]]"
      by simp_all
    have "optLine ! k0 < length nl1" using i by (simp add: nl1)
    with update_loop_frame [OF r] False kk have "nl' ! (optLine ! k0) = nl1 ! (optLine ! k0)"
      by simp
    then have "nl' ! (optLine ! k) ! 3 = fmt_e12 (nomPars ! k0 * exp (optPars ! k0))"
      using i l3 by (simp add: nl1 kk)
    with kk show ?thesis by auto
  qed
qed

lemma update_loop_example:
  "update_loop [0] [1000] [0] [0] [[''R1'', ''1'', ''0'', ''1000'']]
     = Inr [[''R1'', ''1'', ''0'', ''1.000000000000e+03'']]"
  by (simp add: set_value_def fmt_e12_1000)

lemma update_loop_example2:
  "update_loop [0] [1000] [0] [0]
      [[''R1'', ''1'', ''0'', ''1000''], [''C1'', ''1'', ''0'', ''1u''], [''.end'']]
     = Inr [[''R1'', ''1'', ''0'', ''1.000000000000e+03''], [''C1'', ''1'', ''0'', ''1u''],
            [''.end'']]"
  by (simp add: set_value_def fmt_e12_1000)

text \<open>
  Claim C8. The loop that writes the value tokens leaves the number of lines and the
  length of every line as they were, changes no token other than token 3, and changes no
  line that is not one of the lines bound to a tunable instance; the serialization
  writes one record per line, in the order of the lines, each the tokens of the line
  joined by single spaces and ended by a newline, so the records of the untouched lines
  are the same before and after.
\<close>

theorem netlist_mutation_isolation:
  assumes "update_loop optLine nomPars optPars ks nl = Inr nl'"
  shows "length nl' = length nl
     \<and> (\<forall>j<length nl. length (nl' ! j) = length (nl ! j)
            \<and> (\<forall>t<length (nl ! j). t \<noteq> 3 \<longrightarrow> nl' ! j ! t = nl ! j ! t)
            \<and> (j \<notin> (!) optLine ` set ks \<longrightarrow> nl' ! j = nl ! j))
     \<and> (\<exists>recs recs'. netlist_records nl (length nl) = Inr recs
            \<and> netlist_records nl' (length nl) = Inr recs'
            \<and> length recs' = length nl
            \<and> (\<forall>j<length nl. recs' ! j = join_sp (nl' ! j) @ newline
                   \<and> (j \<notin> (!) optLine ` set ks \<longrightarrow> recs' ! j = recs ! j)))"
proof -
  note f = update_loop_frame [OF assms]
  have r: "netlist_records nl' (length nl) = Inr (map (\<lambda>l. join_sp l @ newline) nl')"
    using f netlist_records_all [of nl'] by simp
  show ?thesis
    using f r netlist_records_all [of nl] by simp
qed

theorem netlist_mutation_isolation_witness:
  "\<exists>recs'. netlist_records
          [[''R1'', ''1'', ''0'', ''1.000000000000e+03''], [''C1'', ''1'', ''0'', ''1u''],
           [''.end'']] 3 = Inr recs'
        \<and> length recs' = 3
        \<and> recs' ! 1 = ''C1 1 0 1u'' @ newline \<and> recs' ! 2 = ''.end'' @ newline"
proof -
  let ?nl = "[[''R1'', ''1'', ''0'', ''1000''], [''C1'', ''1'', ''0'', ''1u''], [''.end'']]"
  let ?nl' = "[[''R1'', ''1'', ''0'', ''1.000000000000e+03''], [''C1'', ''1'', ''0'', ''1u''],
               [''.end'']]"
  from netlist_mutation_isolation [OF update_loop_example2]
  obtain recs' where r: "netlist_records ?nl' (length ?nl) = Inr recs'"
    and l: "length recs' = length ?nl"
    and a: "\<forall>j<length ?nl. recs' ! j = join_sp (?nl' ! j) @ newline
              \<and> (j \<notin> (!) [0] ` set [0] \<longrightarrow> recs' ! j = recs' ! j)"
    by auto
  from a have "recs' ! 1 = join_sp (?nl' ! 1) @ newline" by simp
  moreover from a have "recs' ! 2 = join_sp (?nl' ! 2) @ newline" by simp
  ultimately show ?thesis using r l by (auto simp: numeral_3_eq_3)
qed

text \<open>
  Claim C7, as amended. Every value token that the objective function writes has the
  shape of the format \<open>.12e\<close>: one digit before the point and twelve after it, that is
  thirteen significant digits (not twelve), a signed exponent of at least two digits, and
  no character other than digits, the point, \<open>e\<close> and the signs, so no unit or magnitude
  suffix.
\<close>

theorem written_tokens_e12:
  assumes "update_loop optLine nomPars optPars ks nl = Inr nl'" and "k \<in> set ks"
  shows "e12_token (nl' ! (optLine ! k) ! 3)
     \<and> significant_digits (nl' ! (optLine ! k) ! 3) = 13
     \<and> list_all (\<lambda>c. is_digit c \<or> c \<in> set ''.e+-'') (nl' ! (optLine ! k) ! 3)"
proof -
  from update_loop_written [OF assms] obtain v where "nl' ! (optLine ! k) ! 3 = fmt_e12 v"
    by blast
  then show ?thesis using fmt_e12_shape [of v] by simp
qed

theorem written_tokens_e12_witness:
  "e12_token ''1.000000000000e+03'' \<and> significant_digits ''1.000000000000e+03'' = 13
     \<and> list_all (\<lambda>c. is_digit c \<or> c \<in> set ''.e+-'') ''1.000000000000e+03''"
  using written_tokens_e12 [OF update_loop_example, of 0] by simp

text \<open>
  Claim C7 as stated fails: the token written for the nominal value 1000 at the start
  point has thirteen significant digits.
\<close>

theorem written_token_has_13_digits:
  "update_loop [0] [1000] [0] [0] [[''R1'', ''1'', ''0'', ''1000'']]
     = Inr [[''R1'', ''1'', ''0'', ''1.000000000000e+03'']]
   \<and> significant_digits ''1.000000000000e+03'' \<noteq> 12"
  by (simp add: set_value_def fmt_e12_1000 significant_digits_def is_digit_def)

subsection \<open>Simulation synchronizer and objective function\<close>

lemma poll_loop_Some_changed:
  assumes "poll_loop md5 reads n p = Some y"
  shows "(\<forall>i. reads i = md5) \<longrightarrow> p \<noteq> md5"
proof (rule poll_loop.raw_induct
    [where P = "\<lambda>md5 reads n p y. (\<forall>i. reads i = md5) \<longrightarrow> p \<noteq> md5", OF _ assms])
  fix f md5 reads n md5_post and y :: "nat \<times> string"
  assume ih: "\<And>reads n md5_post b y. f reads n md5_post b = Some y \<Longrightarrow>
               (\<forall>i. n i = reads) \<longrightarrow> b \<noteq> reads"
    and step: "(if md5_post = md5 then f md5 reads (Suc n) (reads n) else Some (n, md5_post))
               = Some y"
  show "(\<forall>i. reads i = md5) \<longrightarrow> md5_post \<noteq> md5"
  proof (intro impI notI)
    assume all: "\<forall>i. reads i = md5" and eq: "md5_post = md5"
    with step have "f md5 reads (Suc n) (reads n) = Some y" by simp
    from ih [OF this] all show False by simp
  qed
qed

lemma poll_loop_unchanged:
  assumes "\<forall>n. reads n = md5"
  shows "poll_loop md5 reads n md5 = None"
proof (cases "poll_loop md5 reads n md5")
  case None
  then show ?thesis .
next
  case (Some y)
  from poll_loop_Some_changed [OF Some] assms show ?thesis by simp
qed

lemma poll_loop_changed:
  assumes "reads k \<noteq> md5" and "\<forall>i. n \<le> i \<and> i < k \<longrightarrow> reads i = md5" and "n \<le> k"
  shows "poll_loop md5 reads n md5 = Some (Suc k, reads k)"
  using assms(3,2)
proof (induction rule: inc_induct)
  case base
  have "poll_loop md5 reads k md5 = poll_loop md5 reads (Suc k) (reads k)"
    by (subst poll_loop.simps) simp
  also have "\<dots> = Some (Suc k, reads k)"
    using assms(1) by (subst poll_loop.simps) simp
  finally show ?case .
next
  case (step n)
  then have r: "reads n = md5" by simp
  have "poll_loop md5 reads n md5 = poll_loop md5 reads (Suc n) (reads n)"
    by (subst poll_loop.simps) simp
  also have "\<dots> = Some (Suc k, reads k)"
    using step r by simp
  finally show ?case .
qed

lemma length_np_diff: "length (np_diff p) = length p - 1"
  by (induction p rule: np_diff.induct) simp_all

lemma length_np_cumsum: "length (np_cumsum a xs) = length xs"
  by (induction xs arbitrary: a) simp_all

lemma length_np_unwrap: "length (np_unwrap p) = length p"
  by (cases p) (simp_all add: np_unwrap_def Let_def length_np_diff length_np_cumsum)

lemma runSim_changed:
  assumes "poll_md5 w k \<noteq> empty_md5" and "\<forall>i<k. poll_md5 w i = empty_md5"
  shows "runSim w = Some (if exit_status w \<noteq> 0 then Inl Exit_SimFailed else Inr (Suc k))"
proof -
  have "poll_loop empty_md5 (poll_md5 w) 0 empty_md5 = Some (Suc k, poll_md5 w k)"
    using assms by (intro poll_loop_changed) simp_all
  then show ?thesis by (simp add: runSim_def)
qed

lemma runSim_unchanged:
  assumes "\<forall>n. poll_md5 w n = empty_md5"
  shows "runSim w = None"
  using poll_loop_unchanged [OF assms, of 0] by (simp add: runSim_def)

lemma optLTspice_unchanged:
  assumes "update_loop (OptLineD c) (nomParamsD c) optParams [0..<numOptdD c] (netlistD c) = Inr nl"
    and "numlines_netlistD c \<le> length nl"
    and "\<forall>n. poll_md5 w n = raw_md5 w"
  shows "optLTspice c optParams w count = None"
  using poll_loop_unchanged [OF assms(3), of 0] assms(1,2)
  by (simp add: optLTspice_def netlist_records_def)

lemma optCurrent_Inr:
  "optCurrent mode outNode = Inr cur \<longleftrightarrow> mode \<in> {1, 2, 3} \<and> cur = simulated_response mode outNode"
  by (auto simp: optCurrent_def simulated_response_def Let_def)

lemma weighted_error_Inr:
  assumes "length errWeights = length target"
  shows "weighted_error target errWeights cur = Inr e \<longleftrightarrow>
           length target = length cur \<and> e = map2 (*) (map2 (-) target cur) errWeights"
  using assms by (auto simp: weighted_error_def np_binop_def)

lemma optLTspice_Inr:
  assumes "optLTspice c optParams w count = Some (Inr r)"
  shows "\<exists>nl recs outNode freqx cur n.
           update_loop (OptLineD c) (nomParamsD c) optParams [0..<numOptdD c] (netlistD c) = Inr nl
           \<and> netlist_records nl (numlines_netlistD c) = Inr recs
           \<and> poll_loop (raw_md5 w) (poll_md5 w) 0 (raw_md5 w) = Some n
           \<and> exit_status w = 0
           \<and> raw_traces w (LTspice_output_nodeD c) = Some outNode
           \<and> raw_traces w ''frequency'' = Some freqx
           \<and> optCurrent (matchModeD c) outNode = Inr cur
           \<and> weighted_error (targetD c) (errWeightsD c) cur = Inr (err r)
           \<and> netlist_after r = nl \<and> netlist_file r = concat recs
           \<and> iterationCount r = count + 1"
  using assms
  by (auto simp: optLTspice_def read_and_compare_def Let_def
           split: sum.splits option.splits if_splits)


lemma poll_loop_returns_iff:
  "(\<exists>y. poll_loop md5 reads 0 md5 = Some y) \<longleftrightarrow> (\<exists>k. reads k \<noteq> md5)"
proof
  assume "\<exists>y. poll_loop md5 reads 0 md5 = Some y"
  then obtain y where y: "poll_loop md5 reads 0 md5 = Some y" ..
  show "\<exists>k. reads k \<noteq> md5"
  proof (rule ccontr)
    assume "\<not> (\<exists>k. reads k \<noteq> md5)"
    then have "\<forall>n. reads n = md5" by simp
    from poll_loop_unchanged [OF this, of 0] y show False by simp
  qed
next
  assume "\<exists>k. reads k \<noteq> md5"
  define k where "k = (LEAST k. reads k \<noteq> md5)"
  have c: "reads k \<noteq> md5" unfolding k_def using \<open>\<exists>k. reads k \<noteq> md5\<close> by (rule LeastI_ex)
  have b: "\<forall>i. 0 \<le> i \<and> i < k \<longrightarrow> reads i = md5"
    unfolding k_def using not_less_Least by blast
  from poll_loop_changed [OF c b] show "\<exists>y. poll_loop md5 reads 0 md5 = Some y" by simp
qed

lemma optLTspice_after_poll:
  assumes "update_loop (OptLineD c) (nomParamsD c) optParams [0..<numOptdD c] (netlistD c) = Inr nl"
    and "numlines_netlistD c \<le> length nl"
    and "poll_md5 w k \<noteq> raw_md5 w"
    and "exit_status w = 0"
  shows "optLTspice c optParams w count =
           (case read_and_compare c w of
              Inl e \<Rightarrow> Some (Inl e)
            | Inr e2 \<Rightarrow> Some (Inr \<lparr>err = e2, netlist_after = nl,
                  netlist_file = concat (map (\<lambda>k. join_sp (nl ! k) @ newline) [0..<numlines_netlistD c]),
                  iterationCount = count + 1\<rparr>))"
proof -
  from assms(3) obtain y where "poll_loop (raw_md5 w) (poll_md5 w) 0 (raw_md5 w) = Some y"
    using poll_loop_returns_iff [of "raw_md5 w" "poll_md5 w"] by blast
  then show ?thesis using assms(1,2,4)
    by (simp add: optLTspice_def netlist_records_def)
qed

lemma example_update:
  "update_loop (OptLineD (example_ctx tgt)) (nomParamsD (example_ctx tgt)) [0]
      [0..<numOptdD (example_ctx tgt)] (netlistD (example_ctx tgt))
     = Inr [[''R1'', ''1'', ''0'', ''1.000000000000e+03'']]"
  by (simp add: example_ctx_def set_value_def fmt_e12_1000)

text \<open>
  Claim C2 is not met by the code. The exit status is tested only after the polling loop
  (lines 112-121 and 173-178): when the simulator fails to launch, with exit status 1, and
  so never rewrites the result file, neither \<open>runSim\<close> nor \<open>optLTspice\<close> aborts; the call
  does not return.
\<close>

theorem failed_launch_hangs:
  "runSim (failed_world empty_md5) = None
   \<and> optLTspice (example_ctx [7]) [0] (failed_world ''0123'') 0 = None"
proof -
  have "runSim (failed_world empty_md5) = None"
    by (rule runSim_unchanged) (simp add: failed_world_def)
  moreover have "optLTspice (example_ctx [7]) [0] (failed_world ''0123'') 0 = None"
    using example_update [of "[7]"]
    by (intro optLTspice_unchanged [where nl = "[[''R1'', ''1'', ''0'', ''1.000000000000e+03'']]"])
       (simp_all add: failed_world_def example_ctx_def)
  ultimately show ?thesis by (intro conjI)
qed

text \<open>
  Claim C4. Let the error weights be as many as the target values, and let the result file
  hold the output-node trace and a frequency trace of the same length. Then an evaluation
  that returns, returns \<open>(target - simulated) * errWeights\<close> elementwise, where the
  simulated vector is the one of the specification for the match mode; the magnitude and
  the phase segment each have as many points as the frequency trace; and the evaluation
  returns exactly when the netlist can be written, the result file changes, the exit
  status is zero, the match mode is 1, 2 or 3 and the target is as long as the simulated
  vector.
\<close>

theorem objective_residual:
  assumes "length (errWeightsD c) = length (targetD c)"
    and "raw_traces w (LTspice_output_nodeD c) = Some outNode"
    and "raw_traces w ''frequency'' = Some freqx"
    and "length outNode = length freqx"
  shows "(optLTspice c optParams w count = Some (Inr r) \<longrightarrow>
            err r = map2 (*) (map2 (-) (targetD c) (simulated_response (matchModeD c) outNode))
                      (errWeightsD c)
            \<and> length (err r) = length (targetD c))
     \<and> length (map cmod outNode) = length freqx
     \<and> length (np_unwrap (map Arg outNode)) = length freqx
     \<and> ((\<exists>r. optLTspice c optParams w count = Some (Inr r)) \<longleftrightarrow>
          (\<exists>nl. update_loop (OptLineD c) (nomParamsD c) optParams [0..<numOptdD c] (netlistD c)
                   = Inr nl \<and> numlines_netlistD c \<le> length nl)
          \<and> (\<exists>k. poll_md5 w k \<noteq> raw_md5 w) \<and> exit_status w = 0
          \<and> matchModeD c \<in> {1, 2, 3}
          \<and> length (targetD c) = length (simulated_response (matchModeD c) outNode))"
proof (intro conjI impI)
  assume ret: "optLTspice c optParams w count = Some (Inr r)"
  from optLTspice_Inr [OF ret] assms(2) obtain cur where
    cur: "optCurrent (matchModeD c) outNode = Inr cur"
    and we: "weighted_error (targetD c) (errWeightsD c) cur = Inr (err r)"
    by auto
  from cur have c: "cur = simulated_response (matchModeD c) outNode"
    by (simp add: optCurrent_Inr)
  from we show "err r = map2 (*) (map2 (-) (targetD c)
      (simulated_response (matchModeD c) outNode)) (errWeightsD c)"
    by (simp add: weighted_error_Inr [OF assms(1)] c)
  from we show "length (err r) = length (targetD c)"
    using assms(1) by (simp add: weighted_error_Inr [OF assms(1)])
next
  show "length (map cmod outNode) = length freqx" using assms(4) by simp
next
  show "length (np_unwrap (map Arg outNode)) = length freqx"
    using assms(4) by (simp add: length_np_unwrap)
next
  show "(\<exists>r. optLTspice c optParams w count = Some (Inr r)) \<longleftrightarrow>
          (\<exists>nl. update_loop (OptLineD c) (nomParamsD c) optParams [0..<numOptdD c] (netlistD c)
                   = Inr nl \<and> numlines_netlistD c \<le> length nl)
          \<and> (\<exists>k. poll_md5 w k \<noteq> raw_md5 w) \<and> exit_status w = 0
          \<and> matchModeD c \<in> {1, 2, 3}
          \<and> length (targetD c) = length (simulated_response (matchModeD c) outNode)"
    (is "?L \<longleftrightarrow> ?R")
  proof
    assume ?L
    then obtain r where ret: "optLTspice c optParams w count = Some (Inr r)" ..
    from optLTspice_Inr [OF ret] assms(2) obtain nl recs cur n where
      u: "update_loop (OptLineD c) (nomParamsD c) optParams [0..<numOptdD c] (netlistD c) = Inr nl"
      and re: "netlist_records nl (numlines_netlistD c) = Inr recs"
      and po: "poll_loop (raw_md5 w) (poll_md5 w) 0 (raw_md5 w) = Some n"
      and st: "exit_status w = 0"
      and cur: "optCurrent (matchModeD c) outNode = Inr cur"
      and we: "weighted_error (targetD c) (errWeightsD c) cur = Inr (err r)"
      by auto
    from re have nn: "numlines_netlistD c \<le> length nl"
      by (simp add: netlist_records_def split: if_splits)
    from po have ch: "\<exists>k. poll_md5 w k \<noteq> raw_md5 w"
      using poll_loop_returns_iff [of "raw_md5 w" "poll_md5 w"] by blast
    from cur have m: "matchModeD c \<in> {1, 2, 3}"
      and c: "cur = simulated_response (matchModeD c) outNode"
      by (simp_all add: optCurrent_Inr)
    from we have "length (targetD c) = length cur"
      by (simp add: weighted_error_Inr [OF assms(1)])
    with u nn ch st m c show ?R by blast
  next
    assume r: ?R
    then obtain nl k where
      u: "update_loop (OptLineD c) (nomParamsD c) optParams [0..<numOptdD c] (netlistD c) = Inr nl"
      and nn: "numlines_netlistD c \<le> length nl"
      and ch: "poll_md5 w k \<noteq> raw_md5 w" and st: "exit_status w = 0"
      by blast
    from r have cur: "optCurrent (matchModeD c) outNode
                        = Inr (simulated_response (matchModeD c) outNode)"
      by (simp add: optCurrent_Inr)
    from r have "\<exists>e. weighted_error (targetD c) (errWeightsD c)
                        (simulated_response (matchModeD c) outNode) = Inr e"
      by (simp add: weighted_error_Inr [OF assms(1)])
    then obtain e where "read_and_compare c w = Inr e"
      using assms(2,3) cur by (auto simp: read_and_compare_def)
    then show ?L
      by (simp add: optLTspice_after_poll [OF u nn ch st])
  qed
qed

theorem objective_residual_witness:
  "\<exists>r. optLTspice (example_ctx [7]) [0] (example_world 0 [Complex 3 4]) 0 = Some (Inr r)
       \<and> err r = [4]"
proof -
  let ?c = "example_ctx [7]" and ?w = "example_world 0 [Complex 3 4]"
  have h1: "length (errWeightsD ?c) = length (targetD ?c)" by (simp add: example_ctx_def)
  have h2: "raw_traces ?w (LTspice_output_nodeD ?c) = Some [Complex 3 4]"
    by (simp add: example_ctx_def example_world_def)
  have h3: "raw_traces ?w ''frequency'' = Some [1]" by (simp add: example_world_def)
  have h4: "length [Complex 3 4] = length [1::complex]" by simp
  note t = objective_residual [OF h1 h2 h3 h4, of "[0]" 0]
  have "poll_md5 ?w 2 \<noteq> raw_md5 ?w" by (simp add: example_world_def)
  then have p: "\<exists>k. poll_md5 ?w k \<noteq> raw_md5 ?w" ..
  have u: "\<exists>nl. update_loop (OptLineD ?c) (nomParamsD ?c) [0] [0..<numOptdD ?c] (netlistD ?c)
             = Inr nl \<and> numlines_netlistD ?c \<le> length nl"
    using example_update [of "[7]"] by (simp add: example_ctx_def)
  have m: "exit_status ?w = 0 \<and> matchModeD ?c \<in> {1, 2, 3}
     \<and> length (targetD ?c) = length (simulated_response (matchModeD ?c) [Complex 3 4])"
    by (simp add: example_ctx_def example_world_def simulated_response_def)
  from t u p m obtain r where r: "optLTspice ?c [0] ?w 0 = Some (Inr r)" by blast
  with t [of r] have "err r = map2 (*) (map2 (-) (targetD ?c)
      (simulated_response (matchModeD ?c) [Complex 3 4])) (errWeightsD ?c)" by blast
  then have "err r = [4]"
    by (simp add: example_ctx_def simulated_response_def cmod_def)
  with r show ?thesis by blast
qed

text \<open>
  Claim C5. When the target and the simulated response differ in length, no evaluation
  returns a residual; and once the netlist is written, the result file has changed, the
  exit status is zero and the traces are read, the run is aborted with the length-mismatch
  error. The witness is the scenario of the specification: a target of length 50 against
  a trace of length 49.
\<close>

theorem length_mismatch_aborts:
  assumes "raw_traces w (LTspice_output_nodeD c) = Some outNode"
    and "optCurrent (matchModeD c) outNode = Inr cur"
    and "length (targetD c) \<noteq> length cur"
  shows "(\<forall>r. optLTspice c optParams w count \<noteq> Some (Inr r))
     \<and> ((\<exists>nl. update_loop (OptLineD c) (nomParamsD c) optParams [0..<numOptdD c] (netlistD c)
                 = Inr nl \<and> numlines_netlistD c \<le> length nl)
          \<and> (\<exists>k. poll_md5 w k \<noteq> raw_md5 w) \<and> exit_status w = 0
          \<and> raw_traces w ''frequency'' \<noteq> None
        \<longrightarrow> optLTspice c optParams w count = Some (Inl Exit_LengthMismatch))"
proof (intro conjI allI impI notI)
  fix r assume ret: "optLTspice c optParams w count = Some (Inr r)"
  from optLTspice_Inr [OF ret] assms(1,2) have
    "weighted_error (targetD c) (errWeightsD c) cur = Inr (err r)" by auto
  with assms(3) show False by (simp add: weighted_error_def)
next
  assume a: "(\<exists>nl. update_loop (OptLineD c) (nomParamsD c) optParams [0..<numOptdD c] (netlistD c)
                 = Inr nl \<and> numlines_netlistD c \<le> length nl)
          \<and> (\<exists>k. poll_md5 w k \<noteq> raw_md5 w) \<and> exit_status w = 0
          \<and> raw_traces w ''frequency'' \<noteq> None"
  then obtain nl k where
      u: "update_loop (OptLineD c) (nomParamsD c) optParams [0..<numOptdD c] (netlistD c) = Inr nl"
      and nn: "numlines_netlistD c \<le> length nl"
      and ch: "poll_md5 w k \<noteq> raw_md5 w" and st: "exit_status w = 0"
      by blast
  have "read_and_compare c w = Inl Exit_LengthMismatch"
    using a assms by (auto simp: read_and_compare_def weighted_error_def)
  then show "optLTspice c optParams w count = Some (Inl Exit_LengthMismatch)"
    by (simp add: optLTspice_after_poll [OF u nn ch st])
qed

theorem length_mismatch_aborts_witness:
  "optLTspice (example_ctx (replicate 50 1)) [0] (example_world 0 (replicate 49 1)) 0
     = Some (Inl Exit_LengthMismatch)"
proof -
  let ?c = "example_ctx (replicate 50 1)" and ?w = "example_world 0 (replicate 49 1)"
  have h1: "raw_traces ?w (LTspice_output_nodeD ?c) = Some (replicate 49 1)"
    by (simp add: example_ctx_def example_world_def)
  have h2: "optCurrent (matchModeD ?c) (replicate 49 1) = Inr (map cmod (replicate 49 1))"
    by (simp add: example_ctx_def optCurrent_def)
  have h3: "length (targetD ?c) \<noteq> length (map cmod (replicate 49 (1::complex)))"
    by (simp add: example_ctx_def)
  note t = length_mismatch_aborts [OF h1 h2 h3, of "[0]" 0]
  have "poll_md5 ?w 2 \<noteq> raw_md5 ?w" by (simp add: example_world_def)
  then have p: "\<exists>k. poll_md5 ?w k \<noteq> raw_md5 ?w" ..
  have u: "\<exists>nl. update_loop (OptLineD ?c) (nomParamsD ?c) [0] [0..<numOptdD ?c] (netlistD ?c)
             = Inr nl \<and> numlines_netlistD ?c \<le> length nl"
    using example_update [of "replicate 50 1"] by (simp add: example_ctx_def)
  have m: "exit_status ?w = 0 \<and> raw_traces ?w ''frequency'' \<noteq> None"
    by (simp add: example_world_def)
  from t u p m show ?thesis by blast
qed

subsection \<open>Startup resolution of the tunable instances\<close>

lemma match_idx_filter:
  "match_idx nm ls k = map (\<lambda>i. k + i) (filter (\<lambda>i. designator_contains nm (ls ! i)) [0..<length ls])"
proof (induction ls arbitrary: k)
  case Nil
  then show ?case by simp
next
  case (Cons l ls)
  have "[0..<length (l # ls)] = 0 # map Suc [0..<length ls]"
    by (simp add: upt_conv_Cons map_Suc_upt del: upt_Suc)
  then show ?case
    by (simp add: Cons.IH filter_map comp_def del: upt_Suc)
qed

lemma set_matching_lines:
  "set (matching_lines nm nl) = {k. k < length nl \<and> designator_contains nm (nl ! k)}"
  by (auto simp: matching_lines_def match_idx_filter)

lemma length_fill [simp]: "length (fill xs p vs) = length xs"
  by (induction vs arbitrary: xs p) simp_all

lemma fill_append: "fill xs p (a @ b) = fill (fill xs p a) (p + length a) b"
  by (induction a arbitrary: xs p) simp_all

lemma fill_take_drop:
  "p + length vs \<le> length xs \<Longrightarrow> fill xs p vs = take p xs @ vs @ drop (p + length vs) xs"
proof (induction vs arbitrary: xs p)
  case Nil
  then show ?case by simp
next
  case (Cons v vs)
  then have p: "p < length xs" by simp
  have "fill xs p (v # vs) = fill (xs[p := v]) (Suc p) vs" by simp
  also have "\<dots> = take (Suc p) (xs[p := v]) @ vs @ drop (Suc p + length vs) (xs[p := v])"
    using Cons.prems by (intro Cons.IH) simp
  also have "take (Suc p) (xs[p := v]) = take p xs @ [v]"
    using p by (simp add: take_Suc_conv_app_nth)
  also have "drop (Suc p + length vs) (xs[p := v]) = drop (p + length (v # vs)) xs"
    by simp
  finally show ?case by simp
qed

lemma fill_all: "length vs = length xs \<Longrightarrow> fill xs 0 vs = vs"
  by (simp add: fill_take_drop)

lemma scan_lines_char:
  assumes "[] \<notin> set ls" and "kk < length maxVals" and "kk < length minVals"
    and "length (rs_UB st) = length (rs_OptLine st)"
    and "length (rs_LB st) = length (rs_OptLine st)"
    and "1 \<le> rs_kkk st" and "rs_kkk st - 1 \<le> length (rs_OptLine st)"
  shows "scan_lines names maxVals minVals kk ls k st =
           (if rs_kkk st - 1 + length (match_idx (names ! kk) ls k) \<le> length (rs_OptLine st)
            then Inr (advance st (match_idx (names ! kk) ls k) (maxVals ! kk) (minVals ! kk))
            else Inl IndexError)"
  using assms(1,4,5,6,7)
proof (induction ls arbitrary: k st)
  case Nil
  then show ?case by (simp add: advance_def)
next
  case (Cons l ls)
  from Cons.prems(1) obtain d ts where l: "l = d # ts" by (cases l) auto
  from Cons.prems(1) have ne: "[] \<notin> set ls" by simp
  show ?case
  proof (cases "sublist (names ! kk) d")
    case False
    then have "\<not> designator_contains (names ! kk) l" by (simp add: designator_contains_def l)
    then show ?thesis
      using Cons.IH [OF ne Cons.prems(2,3,4,5)] False by (simp add: l)
  next
    case True
    then have m: "designator_contains (names ! kk) l" by (simp add: designator_contains_def l)
    show ?thesis
    proof (cases "rs_kkk st - 1 < length (rs_OptLine st)")
      case False
      then show ?thesis using True m Cons.prems by (simp add: l)
    next
      case inr: True
      define st1 where "st1 = st\<lparr>rs_OptLine := (rs_OptLine st)[rs_kkk st - 1 := k],
                           rs_UB := (rs_UB st)[rs_kkk st - 1 := maxVals ! kk],
                           rs_LB := (rs_LB st)[rs_kkk st - 1 := minVals ! kk],
                           rs_kkk := rs_kkk st + 1\<rparr>"
      have step: "scan_lines names maxVals minVals kk (l # ls) k st
                    = scan_lines names maxVals minVals kk ls (Suc k) st1"
        using True inr assms(2,3) Cons.prems(2,3) by (simp add: l st1_def)
      have p1: "length (rs_UB st1) = length (rs_OptLine st1)"
        "length (rs_LB st1) = length (rs_OptLine st1)" "1 \<le> rs_kkk st1"
        "rs_kkk st1 - 1 \<le> length (rs_OptLine st1)"
        using Cons.prems inr by (simp_all add: st1_def)
      have k1: "rs_kkk st1 - 1 = Suc (rs_kkk st - 1)" using Cons.prems(4) by (simp add: st1_def)
      have adv: "advance st1 ms (maxVals ! kk) (minVals ! kk)
                   = advance st (k # ms) (maxVals ! kk) (minVals ! kk)" for ms
        unfolding advance_def k1 by (simp add: st1_def)
      have len: "length (rs_OptLine st1) = length (rs_OptLine st)" by (simp add: st1_def)
      show ?thesis
        unfolding step Cons.IH [OF ne p1] adv k1 len using m by simp
    qed
  qed
qed

lemma scan_names_char:
  assumes "[] \<notin> set nl" and "\<forall>kk\<in>set kks. kk < length maxVals \<and> kk < length minVals"
    and "length (rs_UB st) = length (rs_OptLine st)"
    and "length (rs_LB st) = length (rs_OptLine st)"
    and "1 \<le> rs_kkk st" and "rs_kkk st - 1 \<le> length (rs_OptLine st)"
  shows "if rs_kkk st - 1 + length (concat (map (\<lambda>kk. match_idx (names ! kk) nl 0) kks))
              \<le> length (rs_OptLine st)
         then \<exists>st'. scan_names names maxVals minVals nl kks st = Inr st'
                \<and> rs_OptLine st' = fill (rs_OptLine st) (rs_kkk st - 1)
                                      (concat (map (\<lambda>kk. match_idx (names ! kk) nl 0) kks))
                \<and> rs_kkk st' = rs_kkk st
                                  + length (concat (map (\<lambda>kk. match_idx (names ! kk) nl 0) kks))
         else scan_names names maxVals minVals nl kks st = Inl IndexError"
  using assms(2-)
proof (induction kks arbitrary: st)
  case Nil
  then show ?case by simp
next
  case (Cons kk kks)
  define m1 where "m1 = match_idx (names ! kk) nl 0"
  define rest where "rest = concat (map (\<lambda>kk. match_idx (names ! kk) nl 0) kks)"
  have kk: "kk < length maxVals" "kk < length minVals" using Cons.prems(1) by simp_all
  note sl = scan_lines_char [OF assms(1) kk Cons.prems(2,3,4,5), of names 0, folded m1_def]
  have all: "concat (map (\<lambda>kk. match_idx (names ! kk) nl 0) (kk # kks)) = m1 @ rest"
    by (simp add: m1_def rest_def)
  show ?case
  proof (cases "rs_kkk st - 1 + length m1 \<le> length (rs_OptLine st)")
    case False
    then show ?thesis unfolding all using sl by simp
  next
    case True
    define st1 where "st1 = advance st m1 (maxVals ! kk) (minVals ! kk)"
    have s1: "scan_lines names maxVals minVals kk nl 0 st = Inr st1"
      using sl True by (simp add: st1_def)
    have inv: "\<forall>kk\<in>set kks. kk < length maxVals \<and> kk < length minVals"
      "length (rs_UB st1) = length (rs_OptLine st1)"
      "length (rs_LB st1) = length (rs_OptLine st1)"
      "1 \<le> rs_kkk st1" "rs_kkk st1 - 1 \<le> length (rs_OptLine st1)"
      using Cons.prems True by (simp_all add: st1_def advance_def)
    have k1: "rs_kkk st1 - 1 = rs_kkk st - 1 + length m1" "rs_kkk st1 = rs_kkk st + length m1"
      "rs_OptLine st1 = fill (rs_OptLine st) (rs_kkk st - 1) m1"
      using Cons.prems(4) by (simp_all add: st1_def advance_def)
    have e: "rs_kkk st + length m1 - 1 = rs_kkk st - 1 + length m1"
      using Cons.prems(4) by simp
    note ih = Cons.IH [OF inv, folded rest_def, unfolded k1 length_fill e]
    show ?thesis
      unfolding all using ih s1 by (auto simp: fill_append add.assoc split: if_splits)
  qed
qed

lemma resolve_instances_char:
  assumes "[] \<notin> set nl" and "length maxVals = length names" and "length minVals = length names"
  shows "if length (all_matches names nl) = length names
         then \<exists>st. resolve_instances names maxVals minVals nl = Inr st
                \<and> rs_OptLine st = all_matches names nl
         else resolve_instances names maxVals minVals nl
                = Inl (if length names < length (all_matches names nl) then IndexError
                       else Exit_InstanceCount)"
proof -
  define st0 where "st0 = \<lparr>rs_OptLine = replicate (length names) 0,
     rs_UB = replicate (length names) 0, rs_LB = replicate (length names) 0, rs_kkk = 1\<rparr>"
  have am: "concat (map (\<lambda>kk. match_idx (names ! kk) nl 0) [0..<length names])
              = all_matches names nl"
  proof -
    have "map (\<lambda>kk. match_idx (names ! kk) nl 0) [0..<length names]
            = map (\<lambda>nm. match_idx nm nl 0) names"
      by (rule nth_equalityI) simp_all
    then show ?thesis by (simp add: all_matches_def matching_lines_def)
  qed
  have b: "\<forall>kk\<in>set [0..<length names]. kk < length maxVals \<and> kk < length minVals"
    using assms(2,3) by simp
  have i: "length (rs_UB st0) = length (rs_OptLine st0)"
    "length (rs_LB st0) = length (rs_OptLine st0)" "1 \<le> rs_kkk st0"
    "rs_kkk st0 - 1 \<le> length (rs_OptLine st0)"
    by (simp_all add: st0_def)
  note sn = scan_names_char [OF assms(1) b i, of names, unfolded am]
  have l0: "length (rs_OptLine st0) = length names" "rs_kkk st0 = 1"
    "rs_OptLine st0 = replicate (length names) 0" by (simp_all add: st0_def)
  have r: "resolve_instances names maxVals minVals nl =
     (case scan_names names maxVals minVals nl [0..<length names] st0 of
           Inl e \<Rightarrow> Inl e
         | Inr st \<Rightarrow> if length names \<noteq> rs_kkk st - 1 then Inl Exit_InstanceCount else Inr st)"
    unfolding resolve_instances_def Let_def st0_def by simp
  show ?thesis
  proof (cases "length (all_matches names nl) \<le> length names")
    case False
    then show ?thesis using sn unfolding r l0 by simp
  next
    case True
    with sn obtain st' where s: "scan_names names maxVals minVals nl [0..<length names] st0 = Inr st'"
      and o: "rs_OptLine st' = fill (replicate (length names) 0) 0 (all_matches names nl)"
      and k: "rs_kkk st' = 1 + length (all_matches names nl)"
      unfolding l0 by auto
    show ?thesis
    proof (cases "length (all_matches names nl) = length names")
      case True
      then have "rs_OptLine st' = all_matches names nl" using o by (simp add: fill_all)
      then show ?thesis using True s k unfolding r by simp
    next
      case False
      then show ?thesis using \<open>length (all_matches names nl) \<le> length names\<close> s k
        unfolding r by simp
    qed
  qed
qed

lemma concat_singletons:
  "\<forall>x\<in>set xs. \<exists>k. f x = [k] \<Longrightarrow> concat (map f xs) = map (\<lambda>x. hd (f x)) xs"
  by (induction xs) auto

lemma example_matching:
  "matching_lines ''R1'' example_netlist = [0, 1]"
  "matching_lines ''R5'' example_netlist = []"
  "matching_lines ''R10'' example_netlist = [1]"
  "matching_lines ''C1'' example_netlist = [2]"
  by (simp_all add: matching_lines_def designator_contains_def sublist_code example_netlist_def)

text \<open>
  What the guard of lines 429-436 does check. For a netlist without empty lines and bounds
  given for every name, the startup resolution goes through exactly when the number of
  matches, counted over all requested names and all netlist lines whose designator token
  contains the name, equals the number of requested names; a surplus of matches ends in
  the index error of line 424, not in the diagnostic. The lines bound are the matches in
  the order of the names, so when every requested name matches exactly one line each name
  is bound to its line.
\<close>

lemma instance_resolution:
  assumes "[] \<notin> set nl" and "length maxVals = length names" and "length minVals = length names"
  shows "((\<exists>st. resolve_instances names maxVals minVals nl = Inr st)
            \<longleftrightarrow> length (all_matches names nl) = length names)
     \<and> (\<forall>st. resolve_instances names maxVals minVals nl = Inr st
            \<longrightarrow> rs_OptLine st = all_matches names nl)
     \<and> ((\<forall>nm\<in>set names. \<exists>k. matching_lines nm nl = [k]) \<longrightarrow>
          (\<exists>st. resolve_instances names maxVals minVals nl = Inr st
             \<and> (\<forall>kk<length names. matching_lines (names ! kk) nl = [rs_OptLine st ! kk])))"
proof -
  note c = resolve_instances_char [OF assms]
  have p1: "(\<exists>st. resolve_instances names maxVals minVals nl = Inr st)
            \<longleftrightarrow> length (all_matches names nl) = length names"
    using c by (auto split: if_splits)
  have p2: "\<forall>st. resolve_instances names maxVals minVals nl = Inr st
            \<longrightarrow> rs_OptLine st = all_matches names nl"
    using c by (auto split: if_splits)
  have p3: "(\<forall>nm\<in>set names. \<exists>k. matching_lines nm nl = [k]) \<longrightarrow>
          (\<exists>st. resolve_instances names maxVals minVals nl = Inr st
             \<and> (\<forall>kk<length names. matching_lines (names ! kk) nl = [rs_OptLine st ! kk]))"
  proof
    assume one: "\<forall>nm\<in>set names. \<exists>k. matching_lines nm nl = [k]"
    then have am: "all_matches names nl = map (\<lambda>nm. hd (matching_lines nm nl)) names"
      unfolding all_matches_def by (rule concat_singletons)
    then have "length (all_matches names nl) = length names" by simp
    with p1 obtain st where st: "resolve_instances names maxVals minVals nl = Inr st" by blast
    with p2 have o: "rs_OptLine st = map (\<lambda>nm. hd (matching_lines nm nl)) names"
      using am by simp
    have "\<forall>kk<length names. matching_lines (names ! kk) nl = [rs_OptLine st ! kk]"
    proof (intro allI impI)
      fix kk assume kk: "kk < length names"
      then have "names ! kk \<in> set names" by simp
      with one obtain k where "matching_lines (names ! kk) nl = [k]" by blast
      then show "matching_lines (names ! kk) nl = [rs_OptLine st ! kk]"
        using kk by (simp add: o)
    qed
    with st show "\<exists>st. resolve_instances names maxVals minVals nl = Inr st
             \<and> (\<forall>kk<length names. matching_lines (names ! kk) nl = [rs_OptLine st ! kk])"
      by blast
  qed
  from p1 p2 p3 show ?thesis by (intro conjI)
qed

lemma instance_resolution_example:
  "\<exists>st. resolve_instances [''R10'', ''C1''] [2000, 2] [500, 1] example_netlist = Inr st
        \<and> rs_OptLine st = [1, 2]"
proof -
  have h: "[] \<notin> set example_netlist" "length [2000, 2 :: real] = length [''R10'', ''C1'']"
    "length [500, 1 :: real] = length [''R10'', ''C1'']"
    by (simp_all add: example_netlist_def)
  note t = instance_resolution [OF h]
  have "\<forall>nm\<in>set [''R10'', ''C1'']. \<exists>k. matching_lines nm example_netlist = [k]"
    by (simp add: example_matching)
  with t obtain st where
    st: "resolve_instances [''R10'', ''C1''] [2000, 2] [500, 1] example_netlist = Inr st"
    and k: "\<forall>kk<length [''R10'', ''C1'']. matching_lines ([''R10'', ''C1''] ! kk) example_netlist
               = [rs_OptLine st ! kk]"
    by blast
  from t st have "rs_OptLine st = all_matches [''R10'', ''C1''] example_netlist" by blast
  then have "rs_OptLine st = [1, 2]" by (simp add: all_matches_def example_matching)
  with st show ?thesis by blast
qed

text \<open>
  Claim C3 is not met by the code. The guard compares the total number of matches with the
  number of requested names, not the matches of each name: with the names \<open>R1\<close> and \<open>R5\<close>
  on the designators \<open>R1\<close>, \<open>R10\<close>, \<open>C1\<close> the name \<open>R5\<close> matches no line and \<open>R1\<close> matches
  two, the counts are equal, and the resolution goes through without the abort, binding
  the second entry of \<open>OptLine\<close> to the line of \<open>R10\<close>, an instance that was not requested,
  with the bounds of \<open>R1\<close>.
\<close>

theorem missing_instance_masked:
  "resolve_instances [''R1'', ''R5''] [2000, 2000] [500, 500] example_netlist
     = Inr \<lparr>rs_OptLine = [0, 1], rs_UB = [2000, 2000], rs_LB = [500, 500], rs_kkk = 3\<rparr>
   \<and> matching_lines ''R5'' example_netlist = []
   \<and> matching_lines ''R1'' example_netlist = [0, 1]"
proof -
  have "resolve_instances [''R1'', ''R5''] [2000, 2000] [500, 500] example_netlist
     = Inr \<lparr>rs_OptLine = [0, 1], rs_UB = [2000, 2000], rs_LB = [500, 500], rs_kkk = 3\<rparr>"
    by (simp add: resolve_instances_def sublist_code example_netlist_def)
  then show ?thesis by (simp only: example_matching simp_thms)
qed

subsection \<open>Preferred-series quantizer\<close>

lemma ascending_sorted: "ascending xs \<Longrightarrow> sorted_wrt (<) xs"
proof (induction xs rule: ascending.induct)
  case (1 x y zs)
  then have "x < y" "sorted_wrt (<) (y # zs)" by simp_all
  then show ?case by (auto simp: sorted_wrt2 [OF transp_on_less])
qed simp_all

lemma count_le_sorted:
  "sorted_wrt (<) (xs :: real list) \<Longrightarrow>
     (\<forall>i<length (filter (\<lambda>b. b \<le> x) xs). xs ! i \<le> x)
     \<and> (\<forall>i. length (filter (\<lambda>b. b \<le> x) xs) \<le> i \<and> i < length xs \<longrightarrow> x < xs ! i)"
proof (induction xs)
  case Nil
  then show ?case by simp
next
  case (Cons a xs)
  then have s: "sorted_wrt (<) xs" and lt: "\<forall>y\<in>set xs. a < y" by simp_all
  note ih = Cons.IH [OF s]
  show ?case
  proof (cases "a \<le> x")
    case True
    then show ?thesis using ih by (auto simp: nth_Cons split: nat.splits)
  next
    case False
    then have gt: "\<forall>y\<in>set xs. x < y" using lt by fastforce
    then have "filter (\<lambda>b. b \<le> x) xs = []" by (auto simp: filter_empty_conv)
    moreover have "\<forall>i<length xs. x < xs ! i" using gt by simp
    ultimately show ?thesis using False by (auto simp: nth_Cons split: nat.splits)
  qed
qed

lemma edges_nth:
  assumes "i < length pns - 1"
  shows "map2 E (butlast pns) (tl pns) ! i = E (pns ! i) (pns ! Suc i)"
  using assms by (simp add: nth_butlast nth_tl)

lemma edges_length: "length (map2 E (butlast pns) (tl pns)) = length pns - 1"
  by simp

lemma edges_sorted:
  assumes "sorted_wrt (<) pns" and "\<forall>p\<in>set pns. 0 < p"
    and "\<And>a a' b b'. 0 < a \<Longrightarrow> 0 < b \<Longrightarrow> a < a' \<Longrightarrow> b < b' \<Longrightarrow> E a b < E a' b'"
  shows "sorted_wrt (<) (map2 E (butlast pns) (tl pns))"
proof (subst sorted_wrt_iff_nth_less, intro allI impI)
  fix i j assume ij: "i < j" and j: "j < length (map2 E (butlast pns) (tl pns))"
  then have j': "j < length pns - 1" and i': "i < length pns - 1" by simp_all
  have "pns ! i < pns ! j" "pns ! Suc i < pns ! Suc j"
    using assms(1) ij j' by (simp_all add: sorted_wrt_nth_less)
  moreover have "0 < pns ! i" "0 < pns ! Suc i" using assms(2) i' by simp_all
  ultimately have "E (pns ! i) (pns ! Suc i) < E (pns ! j) (pns ! Suc j)" by (intro assms(3))
  then show "map2 E (butlast pns) (tl pns) ! i < map2 E (butlast pns) (tl pns) ! j"
    by (simp only: edges_nth [OF i'] edges_nth [OF j'])
qed

lemma bin_edges_known:
  assumes "known_rnd rnd"
  shows "bin_edges rnd pns = Inr (map2 (edge_fn rnd) (butlast pns) (tl pns))"
proof -
  have l: "length (butlast pns) = length (tl pns)" by simp
  have u: "map2 (\<lambda>a b. a) (butlast pns) (tl pns) = butlast pns"
    using l by (simp add: map_fst_zip case_prod_unfold)
  have d: "map2 (\<lambda>a b. b) (butlast pns) (tl pns) = tl pns"
    using l by (simp add: map_snd_zip case_prod_unfold)
  have e: "edge_fn ''harmonic'' = (\<lambda>a b. 2 * a * b / (a + b))"
    "edge_fn ''arithmetic'' = (\<lambda>a b. (a + b) / 2)"
    "edge_fn ''up'' = (\<lambda>a b. a)" "edge_fn ''down'' = (\<lambda>a b. b)"
    by (simp_all add: edge_fn_def fun_eq_iff)
  from assms consider "rnd = ''harmonic''" | "rnd = ''arithmetic''" | "rnd = ''up''"
    | "rnd = ''down''" by (auto simp: known_rnd_def)
  then show ?thesis
    by cases (simp_all add: bin_edges_def e u d)
qed

lemma bin_edges_unknown: "\<not> known_rnd rnd \<Longrightarrow> bin_edges rnd pns = Inl ValueError"
  by (simp add: bin_edges_def known_rnd_def)

lemma extend_series_blocks: "extend_series ns omn omx = blocks ns [omn - 3 .. omx - 2]"
  by (simp add: extend_series_def blocks_def comp_def)

lemma blocks_Cons: "blocks ns (e # es) = map (\<lambda>n. real n * 10 powi e) ns @ blocks ns es"
  by (simp add: blocks_def)

lemma blocks_snoc: "blocks ns (es @ [e]) = blocks ns es @ map (\<lambda>n. real n * 10 powi e) ns"
  by (simp add: blocks_def)

lemma set_blocks:
  "set (blocks ns es) = {real n * 10 powi e | n e. n \<in> set ns \<and> e \<in> set es}"
  by (auto simp: blocks_def)

lemma length_blocks: "length (blocks ns es) = length ns * length es"
  by (induction es) (simp_all add: blocks_def)

lemma pow10_Suc: "(10::real) powi (e + 1) = 10 * 10 powi e"
  by (simp add: power_int_add)

lemma pow10_mono: "e \<le> e' \<Longrightarrow> (10::real) powi e \<le> 10 powi e'"
  by (rule power_int_increasing) simp_all

lemma valid_series_facts:
  assumes "valid_series ns"
  shows "sorted_wrt (<) ns" and "3 \<le> length ns" and "ns ! 0 = 100"
    and "\<forall>n\<in>set ns. 100 \<le> n \<and> n < 1000"
    and "100 < ns ! 1" and "100 < ns ! (length ns - 2)"
proof -
  from assms have a: "ascending ns" and l: "3 \<le> length ns" and h: "hd ns = 100"
    and u: "\<forall>n\<in>set ns. n < 1000"
    by (simp_all add: valid_series_def list_all_iff)
  show s: "sorted_wrt (<) ns" using a by (rule ascending_sorted)
  show "3 \<le> length ns" by fact
  from l have ne: "ns \<noteq> []" by auto
  then show h0: "ns ! 0 = 100" using h by (simp add: hd_conv_nth)
  have lo: "100 \<le> ns ! i" if "i < length ns" for i
  proof (cases i)
    case 0
    then show ?thesis using h0 by simp
  next
    case (Suc j)
    then have "ns ! 0 < ns ! i" using s that by (simp add: sorted_wrt_nth_less)
    then show ?thesis using h0 by simp
  qed
  show "\<forall>n\<in>set ns. 100 \<le> n \<and> n < 1000"
    using lo u by (auto simp: in_set_conv_nth)
  have "ns ! 0 < ns ! 1" using s l by (simp add: sorted_wrt_nth_less)
  then show "100 < ns ! 1" using h0 by simp
  have "ns ! 0 < ns ! (length ns - 2)" using s l by (simp add: sorted_wrt_nth_less)
  then show "100 < ns ! (length ns - 2)" using h0 by simp
qed

lemma block_bounds:
  assumes "valid_series ns" and "n \<in> set ns"
  shows "100 * 10 powi e \<le> real n * 10 powi e" and "real n * 10 powi e < 100 * 10 powi (e + 1)"
proof -
  from valid_series_facts(4) [OF assms(1)] assms(2) have n: "100 \<le> n" "n < 1000" by simp_all
  have p: "(0::real) < 10 powi e" by simp
  show "100 * 10 powi e \<le> real n * 10 powi e" using n(1) p by simp
  have "real n * 10 powi e < 1000 * 10 powi e" using n(2) p by simp
  then show "real n * 10 powi e < 100 * 10 powi (e + 1)" by (simp add: pow10_Suc)
qed

lemma blocks_lower:
  assumes "valid_series ns" and "y \<in> set (blocks ns es)" and "\<forall>e\<in>set es. a \<le> e"
  shows "100 * 10 powi a \<le> y" and "0 < y"
proof -
  from assms(2) obtain n e where n: "n \<in> set ns" and e: "e \<in> set es"
    and y: "y = real n * 10 powi e" by (auto simp: set_blocks)
  from assms(3) e have ae: "a \<le> e" by simp
  have "100 * 10 powi a \<le> (100::real) * 10 powi e" using pow10_mono [OF ae] by simp
  also have "\<dots> \<le> y" unfolding y by (rule block_bounds(1) [OF assms(1) n])
  finally show lo: "100 * 10 powi a \<le> y" .
  have "(0::real) < 100 * 10 powi a" by simp
  with lo show "0 < y" by linarith
qed

lemma blocks_upper:
  assumes "valid_series ns" and "y \<in> set (blocks ns es)" and "\<forall>e\<in>set es. e \<le> b"
  shows "y < 100 * 10 powi (b + 1)"
proof -
  from assms(2) obtain n e where n: "n \<in> set ns" and e: "e \<in> set es"
    and y: "y = real n * 10 powi e" by (auto simp: set_blocks)
  from assms(3) e have eb: "e \<le> b" by simp
  have "y < 100 * 10 powi (e + 1)" unfolding y by (rule block_bounds(2) [OF assms(1) n])
  also have "\<dots> \<le> 100 * 10 powi (b + 1)" using pow10_mono [of "e + 1" "b + 1"] eb by simp
  finally show "y < 100 * 10 powi (b + 1)" .
qed

lemma blocks_sorted:
  assumes "valid_series ns" and "sorted_wrt (<) es"
  shows "sorted_wrt (<) (blocks ns es)"
  using assms(2)
proof (induction es)
  case Nil
  then show ?case by (simp add: blocks_def)
next
  case (Cons e es)
  then have s: "sorted_wrt (<) es" and lt: "\<forall>e'\<in>set es. e < e'" by simp_all
  have blk: "sorted_wrt (<) (map (\<lambda>n. real n * 10 powi e) ns)"
    using valid_series_facts(1) [OF assms(1)]
    by (simp add: sorted_wrt_map sorted_wrt_mono_rel [where P = "(<)"])
  have cross: "x < y" if x: "x \<in> set (map (\<lambda>n. real n * 10 powi e) ns)"
    and y: "y \<in> set (blocks ns es)" for x y
  proof -
    from x obtain n where "n \<in> set ns" "x = real n * 10 powi e" by auto
    then have "x < 100 * 10 powi (e + 1)" using block_bounds(2) [OF assms(1)] by simp
    also have "\<dots> \<le> y"
    proof (rule blocks_lower(1) [OF assms(1) y])
      show "\<forall>e'\<in>set es. e + 1 \<le> e'" using lt by auto
    qed
    finally show ?thesis .
  qed
  show ?case
    unfolding blocks_Cons sorted_wrt_append using blk Cons.IH [OF s] cross by blast
qed

lemma ceiling_log10_bound:
  assumes "0 < x"
  shows "x \<le> 10 powi \<lceil>log 10 x\<rceil>"
proof -
  have "log 10 x \<le> real_of_int \<lceil>log 10 x\<rceil>" by simp
  moreover have "(1::real) < 10" by simp
  ultimately have "x \<le> 10 powr (real_of_int \<lceil>log 10 x\<rceil>)"
    using assms log_le_iff [of 10 x "real_of_int \<lceil>log 10 x\<rceil>"] by blast
  then show ?thesis by (simp only: powr_powi10)
qed

lemma in_series_pos: "valid_series ns \<Longrightarrow> in_series ns y \<Longrightarrow> 0 < y"
  using valid_series_facts(4) by (fastforce simp: in_series_def)

lemma blocks_in_series: "y \<in> set (blocks ns es) \<Longrightarrow> in_series ns y"
  by (auto simp: set_blocks in_series_def)

lemma blocks_nth_facts:
  assumes v: "valid_series ns" and ab: "a \<le> b"
  defines "pns \<equiv> blocks ns [a..b]"
  shows "length ns \<le> length pns"
    and "pns ! 1 = real (ns ! 1) * 10 powi a"
    and "pns ! (length pns - 2) = real (ns ! (length ns - 2)) * 10 powi b"
proof -
  note l = valid_series_facts(2) [OF v]
  have f: "pns = map (\<lambda>n. real n * 10 powi a) ns @ blocks ns [a + 1..b]"
    unfolding pns_def using ab by (simp add: upto_rec1 [of a b] blocks_Cons)
  have g: "pns = blocks ns [a..b - 1] @ map (\<lambda>n. real n * 10 powi b) ns"
    unfolding pns_def using ab by (simp add: upto_rec2 [of a b] blocks_snoc)
  show "length ns \<le> length pns" by (simp add: f)
  show "pns ! 1 = real (ns ! 1) * 10 powi a" using l by (simp add: f nth_append)
  have "length pns - 2 = length (blocks ns [a..b - 1]) + (length ns - 2)"
    using l by (simp add: g)
  then have "pns ! (length pns - 2) = map (\<lambda>n. real n * 10 powi b) ns ! (length ns - 2)"
    by (simp add: g nth_append)
  then show "pns ! (length pns - 2) = real (ns ! (length ns - 2)) * 10 powi b"
    using l by simp
qed

lemma blocks_gap:
  assumes v: "valid_series ns" and i: "Suc i < length (blocks ns [a..b])"
  shows "neighbours ns (blocks ns [a..b] ! i) (blocks ns [a..b] ! Suc i)"
proof -
  define pns where "pns = blocks ns [a..b]"
  have s: "sorted_wrt (<) pns" unfolding pns_def by (rule blocks_sorted [OF v]) simp
  have mem: "pns ! i \<in> set pns" "pns ! Suc i \<in> set pns" using i by (simp_all add: pns_def)
  have lt: "pns ! i < pns ! Suc i" using s i by (simp add: sorted_wrt_nth_less pns_def)
  have no: "\<not> (pns ! i < y \<and> y < pns ! Suc i)" if y: "in_series ns y" for y
  proof
    assume b: "pns ! i < y \<and> y < pns ! Suc i"
    from y obtain n e where n: "n \<in> set ns" and ye: "y = real n * 10 powi e"
      by (auto simp: in_series_def)
    have "100 * 10 powi a \<le> pns ! i"
      using blocks_lower(1) [OF v mem(1) [unfolded pns_def], of a] by (simp add: pns_def)
    also have "\<dots> < y" using b by simp
    also have "\<dots> < 100 * 10 powi (e + 1)" unfolding ye by (rule block_bounds(2) [OF v n])
    finally have "(10::real) powi a < 10 powi (e + 1)" by simp
    then have ae: "a \<le> e"
      using pow10_mono [of "e + 1" a] by (cases "a \<le> e") auto
    have "100 * 10 powi e \<le> y" unfolding ye by (rule block_bounds(1) [OF v n])
    also have "\<dots> < pns ! Suc i" using b by simp
    also have "\<dots> < 100 * 10 powi (b + 1)"
      using blocks_upper [OF v mem(2) [unfolded pns_def], of b] by (simp add: pns_def)
    finally have "(10::real) powi e < 10 powi (b + 1)" by simp
    then have eb: "e \<le> b"
      using pow10_mono [of "b + 1" e] by (cases "e \<le> b") auto
    from n ae eb have "y \<in> set pns" unfolding pns_def ye set_blocks by auto
    then obtain j where j: "j < length pns" and yj: "y = pns ! j"
      by (auto simp: in_set_conv_nth)
    have "i < j"
    proof (rule ccontr)
      assume "\<not> i < j"
      then have "j = i \<or> j < i" by auto
      then have "pns ! j \<le> pns ! i"
        using s i by (auto simp: sorted_wrt_nth_less pns_def less_imp_le)
      with b yj show False by simp
    qed
    moreover have "j < Suc i"
    proof (rule ccontr)
      assume "\<not> j < Suc i"
      then have "j = Suc i \<or> Suc i < j" by auto
      then have "pns ! Suc i \<le> pns ! j"
        using s j by (auto simp: sorted_wrt_nth_less less_imp_le)
      with b yj show False by simp
    qed
    ultimately show False by simp
  qed
  show ?thesis
    unfolding neighbours_def pns_def [symmetric]
    using mem lt no by (auto intro: blocks_in_series simp: pns_def)
qed

lemma harmonic_mono:
  fixes a b a' b' :: real
  assumes "0 < a" "0 < b" "a \<le> a'" "b \<le> b'"
  shows "2 * a * b / (a + b) \<le> 2 * a' * b' / (a' + b')"
proof -
  have p: "0 < a'" "0 < b'" using assms by linarith+
  have "0 \<le> a * a' * (b' - b) + b * b' * (a' - a)"
    using assms p by (intro add_nonneg_nonneg mult_nonneg_nonneg) simp_all
  then have "2 * a * b * (a' + b') \<le> 2 * a' * b' * (a + b)" by (simp add: algebra_simps)
  moreover have s: "0 < a + b" "0 < a' + b'" using assms p by linarith+
  ultimately have "2 * a * b \<le> 2 * a' * b' * (a + b) / (a' + b')"
    by (simp add: pos_le_divide_eq)
  then have "2 * a * b \<le> (2 * a' * b' / (a' + b')) * (a + b)" by simp
  then show ?thesis using s(1) by (simp only: pos_divide_le_eq)
qed

lemma harmonic_strict_mono:
  fixes a b a' b' :: real
  assumes "0 < a" "0 < b" "a < a'" "b < b'"
  shows "2 * a * b / (a + b) < 2 * a' * b' / (a' + b')"
proof -
  have p: "0 < a'" "0 < b'" using assms by linarith+
  have "0 < a * a' * (b' - b)" using assms p by simp
  moreover have "0 < b * b' * (a' - a)" using assms p by simp
  ultimately have "0 < a * a' * (b' - b) + b * b' * (a' - a)" by linarith
  then have "2 * a * b * (a' + b') < 2 * a' * b' * (a + b)" by (simp add: algebra_simps)
  moreover have s: "0 < a + b" "0 < a' + b'" using assms p by linarith+
  ultimately have "2 * a * b < 2 * a' * b' * (a + b) / (a' + b')"
    by (simp add: pos_less_divide_eq)
  then have "2 * a * b < (2 * a' * b' / (a' + b')) * (a + b)" by simp
  then show ?thesis using s(1) by (simp only: pos_divide_less_eq)
qed

lemma harmonic_between:
  fixes a b :: real
  assumes "0 < a" "a < b"
  shows "a < 2 * a * b / (a + b)" and "2 * a * b / (a + b) < b"
proof -
  have "a * (a + b) < 2 * a * b" using assms by (simp add: algebra_simps)
  then show "a < 2 * a * b / (a + b)" using assms by (simp add: pos_less_divide_eq)
  have "2 * a * b < b * (a + b)" using assms by (simp add: algebra_simps)
  then show "2 * a * b / (a + b) < b" using assms by (simp add: pos_divide_less_eq)
qed

lemma edge_fn_mono:
  assumes "0 < a" "0 < b" "a \<le> a'" "b \<le> b'"
  shows "edge_fn rnd a b \<le> edge_fn rnd a' b'"
  using assms harmonic_mono [OF assms] by (simp add: edge_fn_def)

lemma edge_fn_strict_mono:
  assumes "0 < a" "0 < b" "a < a'" "b < b'"
  shows "edge_fn rnd a b < edge_fn rnd a' b'"
  using assms harmonic_strict_mono [OF assms] by (simp add: edge_fn_def)

lemma edge_fn_between:
  assumes "0 < a" "a < b"
  shows "a \<le> edge_fn rnd a b" and "edge_fn rnd a b \<le> b"
  using assms harmonic_between [OF assms] by (simp_all add: edge_fn_def)

lemma edge_fn_above:
  assumes "0 < a" "a < b" "rnd \<noteq> ''up''"
  shows "a < edge_fn rnd a b"
  using assms harmonic_between [OF assms(1,2)] by (simp add: edge_fn_def)

lemma quantize_char:
  fixes rnd :: string
  assumes v: "valid_series ns" and x: "0 < x"
  defines "pns \<equiv> extend_series ns \<lfloor>log 10 x\<rfloor> \<lceil>log 10 x\<rceil>"
  defines "idx \<equiv> np_digitize x (map2 (edge_fn rnd) (butlast pns) (tl pns))"
  shows "1 \<le> idx" and "Suc idx < length pns"
    and "edge_fn rnd (pns ! (idx - 1)) (pns ! idx) \<le> x"
    and "x < edge_fn rnd (pns ! idx) (pns ! Suc idx)"
    and "neighbours ns (pns ! (idx - 1)) (pns ! idx)"
    and "neighbours ns (pns ! idx) (pns ! Suc idx)"
proof -
  define a where "a = \<lfloor>log 10 x\<rfloor> - 3"
  define b where "b = \<lceil>log 10 x\<rceil> - 2"
  define edg where "edg = map2 (edge_fn rnd) (butlast pns) (tl pns)"
  define N where "N = length pns"
  have pns: "pns = blocks ns [a..b]" by (simp add: pns_def extend_series_blocks a_def b_def)
  have "\<lfloor>log 10 x\<rfloor> \<le> \<lceil>log 10 x\<rceil>" by (rule floor_le_ceiling)
  then have ab: "a \<le> b" unfolding a_def b_def by linarith
  have lo: "10 powi (a + 3) \<le> x" using floor_log10_bounds(1) [OF x] by (simp add: a_def)
  have hi: "x \<le> 10 powi (b + 2)" using ceiling_log10_bound [OF x] by (simp add: b_def)
  note vf = valid_series_facts [OF v]
  note nf = blocks_nth_facts [OF v ab, folded pns]
  have N3: "3 \<le> N" using nf(1) vf(2) by (simp add: N_def)
  have s: "sorted_wrt (<) pns" unfolding pns by (rule blocks_sorted [OF v]) simp
  have pos: "\<forall>p\<in>set pns. 0 < p"
  proof
    fix p assume "p \<in> set pns"
    then show "0 < p" unfolding pns by (rule blocks_lower(2) [OF v, where a = a]) simp
  qed
  have le: "length edg = N - 1" by (simp add: edg_def N_def)
  have es: "sorted_wrt (<) edg"
    unfolding edg_def by (rule edges_sorted [OF s pos]) (rule edge_fn_strict_mono)
  have en: "edg ! i = edge_fn rnd (pns ! i) (pns ! Suc i)" if "i < N - 1" for i
    unfolding edg_def by (rule edges_nth) (use that in \<open>simp add: N_def\<close>)
  have lt: "pns ! i < pns ! Suc i" if "Suc i < N" for i
    using s that by (simp add: sorted_wrt_nth_less N_def)
  have ps: "0 < pns ! i" if "i < N" for i using pos that by (simp add: N_def)
  have idx: "idx = length (filter (\<lambda>b. b \<le> x) edg)"
    by (simp add: idx_def np_digitize_def edg_def)
  note c = count_le_sorted [OF es, of x, folded idx]
  \<comment> \<open>the first edge is at most \<open>x\<close>\<close>
  have "edg ! 0 \<le> pns ! 1"
    using en [of 0] edge_fn_between(2) [OF ps [of 0] lt [of 0]] N3 by simp
  also have "pns ! 1 < 100 * 10 powi (a + 1)"
    unfolding nf(2) using block_bounds(2) [OF v, of "ns ! 1" a] vf(2) by simp
  also have "\<dots> = 10 powi (a + 3)" by (simp add: power_int_add)
  finally have e0: "edg ! 0 \<le> x" using lo by linarith
  have i1: "1 \<le> idx"
  proof (rule ccontr)
    assume "\<not> 1 \<le> idx"
    then have "idx = 0" by simp
    with c N3 le have "x < edg ! 0" by simp
    with e0 show False by simp
  qed
  \<comment> \<open>the last edge is greater than \<open>x\<close>\<close>
  have "x \<le> 100 * 10 powi b" using hi by (simp add: power_int_add)
  also have "\<dots> < pns ! (N - 2)"
    unfolding N_def nf(3) using vf(6) by simp
  also have "\<dots> \<le> edg ! (N - 2)"
    using en [of "N - 2"] edge_fn_between(1) [OF ps [of "N - 2"] lt [of "N - 2"]] N3
    by (simp add: Suc_diff_Suc numeral_2_eq_2)
  finally have eN: "x < edg ! (N - 2)" .
  have i2: "idx \<le> N - 2"
  proof (rule ccontr)
    assume "\<not> idx \<le> N - 2"
    then have "N - 2 < idx" by simp
    with c have "edg ! (N - 2) \<le> x" by simp
    with eN show False by simp
  qed
  show "1 \<le> idx" by fact
  show sl: "Suc idx < length pns" using i2 N3 by (simp add: N_def)
  have "edg ! (idx - 1) \<le> x" using c i1 by simp
  then show "edge_fn rnd (pns ! (idx - 1)) (pns ! idx) \<le> x"
    using en [of "idx - 1"] i1 i2 N3 by simp
  have "x < edg ! idx" using c i2 N3 le by simp
  then show "x < edge_fn rnd (pns ! idx) (pns ! Suc idx)"
    using en [of idx] i2 N3 by simp
  show "neighbours ns (pns ! (idx - 1)) (pns ! idx)"
    using blocks_gap [OF v, of "idx - 1" a b] sl i1 by (simp add: pns)
  show "neighbours ns (pns ! idx) (pns ! Suc idx)"
    using blocks_gap [OF v, of idx a b] sl by (simp add: pns)
qed

lemma E_SERIES_valid: "E_SERIES ser = Some ns \<Longrightarrow> valid_series ns"
proof -
  have "valid_series E3" by (simp add: valid_series_def E3_def)
  moreover have "valid_series E6" by (simp add: valid_series_def E6_def)
  moreover have "valid_series E12" by (simp add: valid_series_def E12_def)
  moreover have "valid_series E24" by (simp add: valid_series_def E24_def)
  moreover have "valid_series E48" by (simp add: valid_series_def E48_def)
  moreover have "valid_series E96" by (simp add: valid_series_def E96_def)
  moreover have "valid_series E192" by (simp add: valid_series_def E192_def)
  moreover assume "E_SERIES ser = Some ns"
  ultimately show ?thesis by (auto simp: E_SERIES_def split: if_splits)
qed

lemma round63_unknown_series: "E_SERIES ser = None \<Longrightarrow> round63 x ser rnd0 = Inl ValueError"
  by (simp add: round63_def)

lemma round63_unknown_rnd:
  "E_SERIES ser = Some ns \<Longrightarrow> 0 < x \<Longrightarrow> \<not> known_rnd (rnd_name rnd0) \<Longrightarrow>
     round63 x ser rnd0 = Inl ValueError"
  by (simp add: round63_def rnd_name_def bin_edges_unknown)

lemma round63_char:
  assumes ser: "E_SERIES ser = Some ns" and x: "0 < x" and k: "known_rnd (rnd_name rnd0)"
  shows "\<exists>p r q. round63 x ser rnd0 = Inr (Value r)
           \<and> neighbours ns p r \<and> neighbours ns r q
           \<and> edge_fn (rnd_name rnd0) p r \<le> x \<and> x < edge_fn (rnd_name rnd0) r q"
proof -
  define pns where "pns = extend_series ns \<lfloor>log 10 x\<rfloor> \<lceil>log 10 x\<rceil>"
  define idx where "idx = np_digitize x (map2 (edge_fn (rnd_name rnd0)) (butlast pns) (tl pns))"
  note v = E_SERIES_valid [OF ser]
  note q = quantize_char [OF v x, of "rnd_name rnd0", folded pns_def, folded idx_def]
  have "round63 x ser rnd0 =
          (case bin_edges (rnd_name rnd0) pns of
             Inl e \<Rightarrow> Inl e
           | Inr edg \<Rightarrow>
               (let idx = np_digitize x edg; idx = (if idx = 0 then 1 else idx)
                in if idx < length pns then Inr (Value (pns ! idx)) else Inl IndexError))"
    unfolding round63_def rnd_name_def pns_def Let_def using ser x by simp
  also have "\<dots> = (let i = idx; i = (if i = 0 then 1 else i)
                in if i < length pns then Inr (Value (pns ! i)) else Inl IndexError)"
    unfolding idx_def by (simp only: bin_edges_known [OF k] sum.case)
  also have "\<dots> = Inr (Value (pns ! idx))"
    using q(1,2) by (simp add: Let_def)
  finally have "round63 x ser rnd0 = Inr (Value (pns ! idx))" .
  with q(3-6) show ?thesis by blast
qed

lemma neighbours_pos:
  "valid_series ns \<Longrightarrow> neighbours ns p q \<Longrightarrow> 0 < p \<and> 0 < q"
  by (auto simp: neighbours_def intro: in_series_pos)

text \<open>
  Claim C9. For a fixed series name and rounding method the quantizer is monotone on the
  positive reals: either both calls raise the error of an unknown series or method, or
  both return a value and the values are ordered as the inputs. The two inputs may lie in
  different decades, so that the two calls extend the series over different decades.
\<close>

theorem round63_monotone:
  assumes "0 < x1" and "x1 \<le> x2"
  shows "(round63 x1 ser rnd = Inl ValueError \<and> round63 x2 ser rnd = Inl ValueError)
     \<or> (\<exists>r1 r2. round63 x1 ser rnd = Inr (Value r1) \<and> round63 x2 ser rnd = Inr (Value r2)
                 \<and> r1 \<le> r2)"
proof (cases "E_SERIES ser")
  case None
  then show ?thesis by (simp add: round63_unknown_series)
next
  case (Some ns)
  have x2: "0 < x2" using assms by linarith
  show ?thesis
  proof (cases "known_rnd (rnd_name rnd)")
    case False
    then show ?thesis
      using round63_unknown_rnd [OF Some assms(1)] round63_unknown_rnd [OF Some x2] by simp
  next
    case True
    note v = E_SERIES_valid [OF Some]
    from round63_char [OF Some assms(1) True] obtain p1 r1 q1 where
      v1: "round63 x1 ser rnd = Inr (Value r1)" and n1: "neighbours ns p1 r1"
      and e1: "edge_fn (rnd_name rnd) p1 r1 \<le> x1" by blast
    from round63_char [OF Some x2 True] obtain p2 r2 q2 where
      v2: "round63 x2 ser rnd = Inr (Value r2)" and n2: "neighbours ns r2 q2"
      and e2: "x2 < edge_fn (rnd_name rnd) r2 q2" by blast
    have "r1 \<le> r2"
    proof (rule ccontr)
      assume "\<not> r1 \<le> r2"
      then have lt: "r2 < r1" by simp
      from n1 have s1: "in_series ns r1" by (simp add: neighbours_def)
      from n2 have s2: "in_series ns r2" by (simp add: neighbours_def)
      from n2 s1 lt have a: "q2 \<le> r1" by (auto simp: neighbours_def)
      from n1 s2 lt have b: "r2 \<le> p1" by (auto simp: neighbours_def)
      from neighbours_pos [OF v n2] have pos: "0 < r2" "0 < q2" by simp_all
      have "edge_fn (rnd_name rnd) r2 q2 \<le> edge_fn (rnd_name rnd) p1 r1"
        by (rule edge_fn_mono [OF pos b a])
      with e1 e2 assms(2) show False by linarith
    qed
    with v1 v2 show ?thesis by blast
  qed
qed

theorem round63_monotone_witness:
  "\<exists>r1 r2. round63 950 ''E96'' None = Inr (Value r1)
            \<and> round63 1530 ''E96'' None = Inr (Value r2) \<and> r1 \<le> r2"
proof -
  have h: "(0::real) < 950" "(950::real) \<le> 1530" by simp_all
  have s: "E_SERIES ''E96'' = Some E96" by (simp add: E_SERIES_def)
  have k: "known_rnd (rnd_name None)"
    by (simp add: known_rnd_def rnd_name_def py_lower_def lower_char_def)
  from round63_char [OF s h(1) k] have "round63 950 ''E96'' None \<noteq> Inl ValueError" by auto
  with round63_monotone [OF h, of "''E96''" None] show ?thesis by blast
qed

text \<open>
  A value of the extended series is returned as it is under the methods \<open>harmonic\<close>,
  \<open>arithmetic\<close> and \<open>down\<close>, for every series.
\<close>

lemma round63_on_series:
  assumes ser: "E_SERIES ser = Some ns" and x: "0 < x"
    and mem: "x \<in> set (extend_series ns \<lfloor>log 10 x\<rfloor> \<lceil>log 10 x\<rceil>)"
    and k: "known_rnd (rnd_name rnd)" and nu: "rnd_name rnd \<noteq> ''up''"
  shows "round63 x ser rnd = Inr (Value x)"
proof -
  note v = E_SERIES_valid [OF ser]
  from mem have sx: "in_series ns x" by (simp add: extend_series_blocks blocks_in_series)
  from round63_char [OF ser x k] obtain p r q where
    r: "round63 x ser rnd = Inr (Value r)" and n1: "neighbours ns p r" and n2: "neighbours ns r q"
    and e1: "edge_fn (rnd_name rnd) p r \<le> x" and e2: "x < edge_fn (rnd_name rnd) r q" by blast
  from neighbours_pos [OF v n1] neighbours_pos [OF v n2] have pos: "0 < p" "0 < r" by simp_all
  from n1 n2 have lt: "p < r" "r < q" by (simp_all add: neighbours_def)
  have "\<not> r < x"
  proof
    assume "r < x"
    with n2 sx have "q \<le> x" by (auto simp: neighbours_def)
    with edge_fn_between(2) [OF pos(2) lt(2), of "rnd_name rnd"] e2 show False by linarith
  qed
  moreover have "\<not> x < r"
  proof
    assume "x < r"
    with n1 sx have "x \<le> p" by (auto simp: neighbours_def)
    with edge_fn_above [OF pos(1) lt(1) nu] e1 show False by linarith
  qed
  ultimately have "r = x" by simp
  with r show ?thesis by simp
qed

lemma log10_100: "\<lfloor>log 10 (100::real)\<rfloor> = 2" "\<lceil>log 10 (100::real)\<rceil> = 2"
  by (rule floor_log10_eq, simp_all add: power_int_def)
     (rule ceiling_log10_eq, simp_all add: power_int_def)

lemma extend_E3_100: "extend_series E3 2 2 = [10, 22, 47, 100, 220, 470]"
  by (simp add: extend_series_def E3_def upto_rec1 power_int_minus)

text \<open>
  Under the method \<open>up\<close> the result is always greater than the input, so no value is
  returned as it is, whether it is on the series or not.
\<close>

lemma round63_up_greater:
  assumes ser: "E_SERIES ser = Some ns" and x: "0 < x"
  shows "\<exists>r. round63 x ser (Some ''up'') = Inr (Value r) \<and> x < r"
proof -
  have n: "rnd_name (Some ''up'') = ''up''"
    by (simp add: rnd_name_def py_lower_def lower_char_def)
  then have k: "known_rnd (rnd_name (Some ''up''))" by (simp add: known_rnd_def)
  from round63_char [OF ser x k] obtain r q where
    "round63 x ser (Some ''up'') = Inr (Value r)" and "x < edge_fn (rnd_name (Some ''up'')) r q"
    by blast
  then show ?thesis by (auto simp: n edge_fn_def)
qed

text \<open>
  Claim C1 is not met by the code under the method \<open>up\<close>: there the bin edges are the
  series values themselves and \<open>numpy.digitize\<close> puts a value equal to an edge into the
  bin above it, so the series value 100 of \<open>E3\<close> is moved to 220, while \<open>down\<close> leaves it.
\<close>

theorem round_up_leaves_series_value:
  "100 \<in> set (extend_series E3 \<lfloor>log 10 100\<rfloor> \<lceil>log 10 100\<rceil>)
   \<and> round63 100 ''E3'' (Some ''up'') = Inr (Value 220)
   \<and> round63 100 ''E3'' (Some ''down'') = Inr (Value 100)"
proof -
  have l: "py_lower ''up'' = ''up''" "py_lower ''down'' = ''down''"
    by (simp_all add: py_lower_def lower_char_def)
  have "round63 100 ''E3'' (Some ''up'') = Inr (Value 220)"
    by (simp add: round63_def E_SERIES_def l log10_100 extend_E3_100 bin_edges_def
        np_digitize_def)
  moreover have "round63 100 ''E3'' (Some ''down'') = Inr (Value 100)"
    by (simp add: round63_def E_SERIES_def l log10_100 extend_E3_100 bin_edges_def
        np_digitize_def)
  ultimately show ?thesis by (simp add: log10_100 extend_E3_100)
qed

end
